theory Spec2Isabelle
  imports Main "HOL-Library.Word" "HOL-Library.AList"
begin

section \<open>Errors\<close>

text \<open>
  Go's \<^verbatim>\<open>error\<close> values, as the program builds them. \<open>New s\<close> is \<^verbatim>\<open>errors.New(s)\<close>,
  \<open>Errorf f\<close> is \<^verbatim>\<open>fmt.Errorf(f)\<close> with the format \<open>f\<close> and no operands,
  \<open>NewPrefixed p e\<close> is \<^verbatim>\<open>errors.New(p + e.Error())\<close>, and \<open>Failure s\<close> is an error
  that the stream, the encoder or the decoder reports. A nil error is \<open>None\<close>.
\<close>

datatype error =
    New string
  | Errorf string
  | NewPrefixed string error
  | Failure string

section \<open>Codec (codec.go, gob.go)\<close>

record Header =
  h_ServiceMethod :: string
  h_Seq :: "64 word"
  h_Error :: string

text \<open>One value written by the gob encoder: a header or a body.\<close>

datatype encoded = EncHeader Header | EncBody string

text \<open>
  The state of a \<^verbatim>\<open>GobCodec\<close>: \<open>buf\<close> holds what the encoder has written into the
  \<^verbatim>\<open>bufio.Writer\<close> and is not flushed yet, \<open>conn\<close> what has reached the connection,
  \<open>flushes\<close> and \<open>closes\<close> count the calls of \<^verbatim>\<open>buf.Flush()\<close> and \<^verbatim>\<open>conn.Close()\<close>.
\<close>

record GobCodec =
  buf :: "encoded list"
  conn :: "encoded list"
  flushes :: nat
  closes :: nat

text \<open>
  What the encoder and the connection answer during one call: the error (or nil) of
  encoding the header, of encoding the body, of \<^verbatim>\<open>Flush\<close> and of \<^verbatim>\<open>conn.Close\<close>.
  An encoding error includes an I/O error that the encoder meets when the buffer
  overflows into the connection.
\<close>

record io =
  enc_header_err :: "error option"
  enc_body_err :: "error option"
  flush_err :: "error option"
  close_err :: "error option"

definition Flush :: "io \<Rightarrow> GobCodec \<Rightarrow> error option \<times> GobCodec" where
  "Flush env c =
     (case flush_err env of
        None \<Rightarrow> (None, c\<lparr>buf := [], conn := conn c @ buf c, flushes := Suc (flushes c)\<rparr>)
      | Some e \<Rightarrow> (Some e, c\<lparr>flushes := Suc (flushes c)\<rparr>))"

definition GobCodec_Close :: "io \<Rightarrow> GobCodec \<Rightarrow> error option \<times> GobCodec" where
  "GobCodec_Close env c = (close_err env, c\<lparr>closes := Suc (closes c)\<rparr>)"

text \<open>
  \<^verbatim>\<open>Encode\<close> of one value: it fails with the error of the environment, or appends the
  value to the buffer.
\<close>

definition Encode :: "error option \<Rightarrow> encoded \<Rightarrow> GobCodec \<Rightarrow> error option \<times> GobCodec" where
  "Encode answer v c =
     (case answer of None \<Rightarrow> (None, c\<lparr>buf := buf c @ [v]\<rparr>) | Some e \<Rightarrow> (Some e, c))"

text \<open>
  The deferred function of \<^verbatim>\<open>Write\<close>: it flushes, drops the result of the flush,
  and closes the codec when the named result \<open>err\<close> is not nil.
\<close>

definition Write_deferred :: "io \<Rightarrow> error option \<Rightarrow> GobCodec \<Rightarrow> GobCodec" where
  "Write_deferred env err c =
     (let c1 = snd (Flush env c)
      in if err \<noteq> None then snd (GobCodec_Close env c1) else c1)"

definition GobCodec_Write :: "io \<Rightarrow> Header \<Rightarrow> string \<Rightarrow> GobCodec \<Rightarrow> error option \<times> GobCodec" where
  "GobCodec_Write env h body c =
     (case Encode (enc_header_err env) (EncHeader h) c of
        (Some e, c1) \<Rightarrow> (Some e, Write_deferred env (Some e) c1)
      | (None, c1) \<Rightarrow>
          (case Encode (enc_body_err env) (EncBody body) c1 of
             (Some e, c2) \<Rightarrow> (Some e, Write_deferred env (Some e) c2)
           | (None, c2) \<Rightarrow> (None, Write_deferred env None c2)))"

section \<open>Options (server.go, client.go)\<close>

definition MagicNumber_const :: int where
  "MagicNumber_const = 0x3bef5c"

definition GobType :: string where
  "GobType = ''application/gob''"

record Option' =
  MagicNumber :: int
  CodecType :: string

definition DefaultOption :: Option' where
  "DefaultOption = \<lparr>MagicNumber = MagicNumber_const, CodecType = GobType\<rparr>"

text \<open>
  \<^verbatim>\<open>parseOptions(opts ...*Option)\<close>: the variadic arguments are a list of pointers,
  a nil pointer is \<open>None\<close>. The function writes into the caller's option and returns
  the same pointer; the model returns the option as it is after the writes.
\<close>

definition parseOptions :: "Option' option list \<Rightarrow> error + Option'" where
  "parseOptions opts =
     (if length opts = 0 \<or> hd opts = None then Inr DefaultOption
      else if length opts \<noteq> 1 then Inl (New ''number of options is more than 1'')
      else (case hd opts of
              None \<Rightarrow> Inr DefaultOption
            | Some opt \<Rightarrow>
                (let opt1 = opt\<lparr>MagicNumber := MagicNumber DefaultOption\<rparr>;
                     opt2 = (if CodecType opt1 = [] then opt1\<lparr>CodecType := CodecType DefaultOption\<rparr>
                             else opt1)
                 in Inr opt2)))"

section \<open>Client (client.go)\<close>

text \<open>
  A \<^verbatim>\<open>*Call\<close> is an address in a store of calls, since the pending table, the
  notification channel and the caller share the object. \<open>Done\<close> names the channel.
  \<open>Args\<close> and \<open>Reply\<close> are opaque payloads.
\<close>

record Call =
  Seq :: "64 word"
  ServiceMethod :: string
  Args :: string
  Reply :: string
  Error :: "error option"
  Done :: nat

text \<open>
  A channel of \<^verbatim>\<open>*Call\<close>: its capacity and the calls that wait in its buffer, oldest
  first.
\<close>

record chan =
  cap :: nat
  queue :: "nat list"

datatype mutex = sending | mu

datatype event = Lock mutex | Unlock mutex | Signal nat

text \<open>
  The client with the objects it points to. \<open>cc\<close> to \<open>shutdown\<close> are the fields of
  \<^verbatim>\<open>Client\<close>; the two mutexes appear through the events \<open>Lock\<close> and \<open>Unlock\<close> that
  every operation appends to \<open>events\<close>, together with \<open>Signal a\<close> for each send of
  \<^verbatim>\<open>call.done()\<close> that has completed. \<open>pending\<close> is the map from sequence number to
  call, as an association list: its order stands for the order in which \<^verbatim>\<open>range\<close> visits
  the map. \<open>calls\<close> is the store of calls and \<open>chans\<close> the store of channels, with the
  next free address of each.
\<close>

record Client =
  cc :: GobCodec
  opt :: Option'
  header :: Header
  seq :: "64 word"
  pending :: "(64 word \<times> nat) list"
  closing :: bool
  shutdown :: bool
  calls :: "nat \<Rightarrow> Call"
  next_call :: nat
  chans :: "nat \<Rightarrow> chan"
  next_chan :: nat
  events :: "event list"

text \<open>
  A function that sends on a channel either returns, or stays in a send whose channel has
  no room: then the goroutine waits, with the locks it holds, until some other goroutine
  receives from that channel. \<open>Blocked c\<close> is that outcome, with the state \<open>c\<close> in which the
  goroutine waits; \<open>Returns x\<close> is the outcome of a function that has returned.
\<close>

datatype 'a outcome = Blocked Client | Returns 'a

definition state_of :: "Client outcome \<Rightarrow> Client" where
  "state_of r = (case r of Blocked c \<Rightarrow> c | Returns c \<Rightarrow> c)"

definition ErrShutdown :: error where
  "ErrShutdown = New ''conection is shut down''"

definition emit :: "event \<Rightarrow> Client \<Rightarrow> Client" where
  "emit e c = c\<lparr>events := events c @ [e]\<rparr>"

text \<open>\<^verbatim>\<open>call.Error = err\<close> through the pointer \<open>a\<close>.\<close>

definition set_Error :: "nat \<Rightarrow> error \<Rightarrow> Client \<Rightarrow> Client" where
  "set_Error a err c = c\<lparr>calls := (calls c)(a := (calls c a)\<lparr>Error := Some err\<rparr>)\<rparr>"

text \<open>
  A send of the call \<open>a\<close> on its channel \<^verbatim>\<open>call.Done\<close> that completes: the call joins the
  buffer, and the event \<open>Signal a\<close> records it.
\<close>

definition deliver :: "nat \<Rightarrow> Client \<Rightarrow> Client" where
  "deliver a c =
     (let ch = Done (calls c a)
      in emit (Signal a) (c\<lparr>chans := (chans c)(ch := (chans c ch)\<lparr>queue := queue (chans c ch) @ [a]\<rparr>)\<rparr>))"

text \<open>
  \<^verbatim>\<open>call.done()\<close> is the plain send \<^verbatim>\<open>call.Done <- call\<close>. It completes when the buffer of
  the channel has room. When the buffer is full, and always when the channel has no
  buffer, the send waits for a receiver. (A receiver that is already waiting in its
  receive would take the value at once; the receivers appear here only through
  \<open>chan_take\<close> below, between two operations of the client.)
\<close>

definition done_call :: "nat \<Rightarrow> Client \<Rightarrow> Client outcome" where
  "done_call a c =
     (if length (queue (chans c (Done (calls c a)))) < cap (chans c (Done (calls c a)))
      then Returns (deliver a c)
      else Blocked c)"

text \<open>The caller's \<^verbatim>\<open><-ch\<close> on a channel whose buffer holds a call: the oldest one leaves.\<close>

definition chan_take :: "nat \<Rightarrow> Client \<Rightarrow> Client" where
  "chan_take ch c = c\<lparr>chans := (chans c)(ch := (chans c ch)\<lparr>queue := tl (queue (chans c ch))\<rparr>)\<rparr>"

definition Client_Close :: "io \<Rightarrow> Client \<Rightarrow> error option \<times> Client" where
  "Client_Close env c =
     (let c1 = emit (Lock mu) c
      in if closing c1 then (Some ErrShutdown, emit (Unlock mu) c1)
         else (let c2 = c1\<lparr>closing := True\<rparr>;
                   (r, cc') = GobCodec_Close env (cc c2)
               in (r, emit (Unlock mu) (c2\<lparr>cc := cc'\<rparr>))))"

definition IsAvailable :: "Client \<Rightarrow> bool \<times> Client" where
  "IsAvailable c =
     (let c1 = emit (Lock mu) c
      in (\<not> shutdown c1 \<and> \<not> closing c1, emit (Unlock mu) c1))"

definition registerCall :: "nat \<Rightarrow> Client \<Rightarrow> (error + 64 word) \<times> Client" where
  "registerCall a c =
     (let c1 = emit (Lock mu) c
      in if closing c1 \<or> shutdown c1 then (Inl ErrShutdown, emit (Unlock mu) c1)
         else (let c2 = c1\<lparr>calls := (calls c1)(a := (calls c1 a)\<lparr>Seq := seq c1\<rparr>)\<rparr>;
                   c3 = c2\<lparr>pending := AList.update (Seq (calls c2 a)) a (pending c2)\<rparr>;
                   c4 = c3\<lparr>seq := seq c3 + 1\<rparr>
               in (Inr (Seq (calls c4 a)), emit (Unlock mu) c4)))"

definition removeCall :: "64 word \<Rightarrow> Client \<Rightarrow> nat option \<times> Client" where
  "removeCall s c =
     (let c1 = emit (Lock mu) c;
          call = map_of (pending c1) s;
          c2 = c1\<lparr>pending := AList.delete s (pending c1)\<rparr>
      in (call, emit (Unlock mu) c2))"

text \<open>
  The loop of \<^verbatim>\<open>terminateCalls\<close> over the entries of the pending table. A send that has
  to wait leaves the loop where it stands, with the error of that call assigned.
\<close>

fun terminate_loop :: "(64 word \<times> nat) list \<Rightarrow> error \<Rightarrow> Client \<Rightarrow> Client outcome" where
  "terminate_loop [] err c = Returns c"
| "terminate_loop ((s, a) # rest) err c =
     (case done_call a (set_Error a err c) of
        Blocked c1 \<Rightarrow> Blocked c1
      | Returns c1 \<Rightarrow> terminate_loop rest err c1)"

text \<open>
  \<^verbatim>\<open>terminateCalls\<close>. The two deferred unlocks run when the function returns; a blocked
  send keeps both locks.
\<close>

definition terminateCalls :: "error \<Rightarrow> Client \<Rightarrow> Client outcome" where
  "terminateCalls err c =
     (let c1 = emit (Lock sending) c;
          c2 = emit (Lock mu) c1;
          c3 = c2\<lparr>shutdown := True\<rparr>
      in case terminate_loop (pending c3) err c3 of
           Blocked c4 \<Rightarrow> Blocked c4
         | Returns c4 \<Rightarrow> Returns (emit (Unlock sending) (emit (Unlock mu) c4)))"

text \<open>
  What the receive loop reads from the codec in one round: a failed \<^verbatim>\<open>ReadHeader\<close>, or a
  header and the result of the \<^verbatim>\<open>ReadBody\<close> after it (an error, or the decoded body).
\<close>

datatype incoming = HeaderFailure error | Frame Header "error + string"

definition body_err :: "error + string \<Rightarrow> error option" where
  "body_err b = (case b of Inl e \<Rightarrow> Some e | Inr v \<Rightarrow> None)"

text \<open>
  One round of the loop of \<^verbatim>\<open>receive\<close> after a header was read: the three cases of
  the \<^verbatim>\<open>switch\<close>. The result is the value of \<open>err\<close> and the state.
\<close>

definition receive_frame :: "Header \<Rightarrow> error + string \<Rightarrow> Client \<Rightarrow> (error option \<times> Client) outcome" where
  "receive_frame h b c =
     (case removeCall (h_Seq h) c of
        (None, c1) \<Rightarrow> Returns (body_err b, c1)
      | (Some a, c1) \<Rightarrow>
          if h_Error h \<noteq> [] then
            (case done_call a (set_Error a (Errorf (h_Error h)) c1) of
               Blocked c2 \<Rightarrow> Blocked c2
             | Returns c2 \<Rightarrow> Returns (body_err b, c2))
          else
            (case b of
               Inl e \<Rightarrow>
                 (case done_call a (set_Error a (NewPrefixed ''reading body '' e) c1) of
                    Blocked c2 \<Rightarrow> Blocked c2
                  | Returns c2 \<Rightarrow> Returns (Some e, c2))
             | Inr v \<Rightarrow>
                 (case done_call a (c1\<lparr>calls := (calls c1)(a := (calls c1 a)\<lparr>Reply := v\<rparr>)\<rparr>) of
                    Blocked c2 \<Rightarrow> Blocked c2
                  | Returns c2 \<Rightarrow> Returns (None, c2))))"

text \<open>
  \<^verbatim>\<open>receive\<close> on the rounds that the connection delivers. The loop leaves with the first
  error and ends in \<^verbatim>\<open>terminateCalls\<close>; \<open>None\<close> says that the rounds are used up and
  the loop is still waiting in \<^verbatim>\<open>ReadHeader\<close>.
\<close>

fun receive :: "incoming list \<Rightarrow> Client \<Rightarrow> Client outcome option" where
  "receive [] c = None"
| "receive (HeaderFailure e # rest) c = Some (terminateCalls e c)"
| "receive (Frame h b # rest) c =
     (case receive_frame h b c of
        Blocked c1 \<Rightarrow> Some (Blocked c1)
      | Returns (None, c1) \<Rightarrow> receive rest c1
      | Returns (Some e, c1) \<Rightarrow> Some (terminateCalls e c1))"

text \<open>
  \<^verbatim>\<open>newClientCodec\<close>, in a world with no call and no channel yet. The goroutine that runs
  \<^verbatim>\<open>receive\<close> is started here; its rounds are the function \<open>receive\<close> above.
\<close>

definition newClientCodec :: "GobCodec \<Rightarrow> Option' \<Rightarrow> Client" where
  "newClientCodec codec option =
     \<lparr>cc = codec, opt = option,
      header = \<lparr>h_ServiceMethod = [], h_Seq = 0, h_Error = []\<rparr>,
      seq = 1, pending = [], closing = False, shutdown = False,
      calls = (\<lambda>a. \<lparr>Seq = 0, ServiceMethod = [], Args = [], Reply = [], Error = None, Done = 0\<rparr>),
      next_call = 0,
      chans = (\<lambda>ch. \<lparr>cap = 0, queue = []\<rparr>),
      next_chan = 0,
      events = []\<rparr>"

text \<open>
  \<^verbatim>\<open>send\<close>. The deferred unlock of the send lock runs when the function returns.
\<close>

definition send :: "io \<Rightarrow> nat \<Rightarrow> Client \<Rightarrow> Client outcome" where
  "send env a c =
     (let c1 = emit (Lock sending) c
      in case registerCall a c1 of
           (Inl err, c2) \<Rightarrow>
             (case done_call a (set_Error a err c2) of
                Blocked c3 \<Rightarrow> Blocked c3
              | Returns c3 \<Rightarrow> Returns (emit (Unlock sending) c3))
         | (Inr s, c2) \<Rightarrow>
             (let c3 = c2\<lparr>header := \<lparr>h_ServiceMethod = ServiceMethod (calls c2 a), h_Seq = s, h_Error = []\<rparr>\<rparr>;
                  (werr, cc') = GobCodec_Write env (header c3) (Args (calls c3 a)) (cc c3);
                  c4 = c3\<lparr>cc := cc'\<rparr>
              in case werr of
                   None \<Rightarrow> Returns (emit (Unlock sending) c4)
                 | Some err \<Rightarrow>
                     (case removeCall s c4 of
                        (None, c5) \<Rightarrow> Returns (emit (Unlock sending) c5)
                      | (Some b, c5) \<Rightarrow>
                          (case done_call b (set_Error b err c5) of
                             Blocked c6 \<Rightarrow> Blocked c6
                           | Returns c6 \<Rightarrow> Returns (emit (Unlock sending) c6)))))"

datatype panic = Panic string

text \<open>
  \<^verbatim>\<open>Go\<close>: \<open>done = None\<close> is a nil channel. The result is the panic of \<^verbatim>\<open>log.Panic\<close>, or
  the outcome of \<^verbatim>\<open>send\<close>: the address of the new call and the state when \<^verbatim>\<open>Go\<close>
  returns, or the state in which \<^verbatim>\<open>send\<close> waits.
\<close>

definition new_Call :: "string \<Rightarrow> string \<Rightarrow> string \<Rightarrow> nat \<Rightarrow> Client \<Rightarrow> nat \<times> Client" where
  "new_Call serviceMethod args reply ch c =
     (let a = next_call c
      in (a, c\<lparr>calls := (calls c)(a := \<lparr>Seq = 0, ServiceMethod = serviceMethod, Args = args,
                                        Reply = reply, Error = None, Done = ch\<rparr>),
              next_call := Suc a\<rparr>))"

definition make_chan :: "nat \<Rightarrow> Client \<Rightarrow> nat \<times> Client" where
  "make_chan n c =
     (let ch = next_chan c
      in (ch, c\<lparr>chans := (chans c)(ch := \<lparr>cap = n, queue = []\<rparr>), next_chan := Suc ch\<rparr>))"

definition send_new :: "io \<Rightarrow> nat \<Rightarrow> Client \<Rightarrow> (nat \<times> Client) outcome" where
  "send_new env a c = (case send env a c of Blocked c1 \<Rightarrow> Blocked c1 | Returns c1 \<Rightarrow> Returns (a, c1))"

definition Go :: "io \<Rightarrow> string \<Rightarrow> string \<Rightarrow> string \<Rightarrow> nat option \<Rightarrow> Client \<Rightarrow> panic + (nat \<times> Client) outcome" where
  "Go env serviceMethod args reply done c =
     (case done of
        None \<Rightarrow>
          (let (ch, c1) = make_chan 10 c;
               (a, c2) = new_Call serviceMethod args reply ch c1
           in Inr (send_new env a c2))
      | Some ch \<Rightarrow>
          if cap (chans c ch) = 0 then Inl (Panic ''rpc client: done channel is unbuffered'')
          else (let (a, c2) = new_Call serviceMethod args reply ch c
                in Inr (send_new env a c2)))"

text \<open>
  A client's life as the operations that reach its state, in the order in which they
  take the state lock: the registration of a call by \<^verbatim>\<open>send\<close>, \<^verbatim>\<open>removeCall\<close>,
  \<^verbatim>\<open>Close\<close> and \<^verbatim>\<open>terminateCalls\<close>. \<open>run\<close> returns the sequence numbers that the
  successful registrations were given, in their order. When \<^verbatim>\<open>terminateCalls\<close> stays in a
  send it keeps the state lock, and no later operation gets it: the life ends there.
\<close>

datatype operation = Register nat | Remove "64 word" | CloseClient io | Terminate error

fun run :: "operation list \<Rightarrow> Client \<Rightarrow> 64 word list \<times> Client" where
  "run [] c = ([], c)"
| "run (Register a # ops) c =
     (case registerCall a c of
        (Inl err, c1) \<Rightarrow> run ops c1
      | (Inr s, c1) \<Rightarrow> (let (ss, c2) = run ops c1 in (s # ss, c2)))"
| "run (Remove s # ops) c = run ops (snd (removeCall s c))"
| "run (CloseClient env # ops) c = run ops (snd (Client_Close env c))"
| "run (Terminate err # ops) c =
     (case terminateCalls err c of
        Blocked c1 \<Rightarrow> ([], c1)
      | Returns c1 \<Rightarrow> run ops c1)"

text \<open>
  The life in which \<open>n\<close> calls, at the addresses \<open>0\<close> to \<open>n - 1\<close>, are registered one
  after the other.
\<close>

definition registrations :: "nat \<Rightarrow> operation list" where
  "registrations n = map Register [0..<n]"

text \<open>
  A client's life as the calls of its interface and the rounds of its receive loop, each
  run to its end before the next begins: \<^verbatim>\<open>Go\<close>, one round of \<^verbatim>\<open>receive\<close> (which ends
  in \<^verbatim>\<open>terminateCalls\<close> when the round fails), \<^verbatim>\<open>Close\<close>, and on the caller's side the
  making of a channel and a receive from one. \<open>life\<close> gives the state that the steps
  reach, and \<open>None\<close> when a step panics or stays in a send, or when a round is asked of a
  receive loop that has ended (the loop ends in \<^verbatim>\<open>terminateCalls\<close>, which sets
  \<open>shutdown\<close>, and nothing else sets it).
\<close>

datatype step =
    Submit io string string string "nat option"
  | Round incoming
  | CloseStep io
  | Make nat
  | Take nat

fun life :: "step list \<Rightarrow> Client \<Rightarrow> Client option" where
  "life [] c = Some c"
| "life (Submit env serviceMethod args reply dn # steps) c =
     (case Go env serviceMethod args reply dn c of
        Inl p \<Rightarrow> None
      | Inr (Blocked c1) \<Rightarrow> None
      | Inr (Returns (a, c1)) \<Rightarrow> life steps c1)"
| "life (Round (HeaderFailure e) # steps) c =
     (if shutdown c then None
      else case terminateCalls e c of
             Blocked c1 \<Rightarrow> None
           | Returns c1 \<Rightarrow> life steps c1)"
| "life (Round (Frame h b) # steps) c =
     (if shutdown c then None
      else case receive_frame h b c of
             Blocked c1 \<Rightarrow> None
           | Returns (None, c1) \<Rightarrow> life steps c1
           | Returns (Some e, c1) \<Rightarrow>
               (case terminateCalls e c1 of
                  Blocked c2 \<Rightarrow> None
                | Returns c2 \<Rightarrow> life steps c2))"
| "life (CloseStep env # steps) c = life steps (snd (Client_Close env c))"
| "life (Make n # steps) c = life steps (snd (make_chan n c))"
| "life (Take ch # steps) c = life steps (chan_take ch c)"

text \<open>The calls that have been signalled, in the order of the sends.\<close>

fun signal_of :: "event \<Rightarrow> nat list" where
  "signal_of (Signal a) = [a]"
| "signal_of (Lock m) = []"
| "signal_of (Unlock m) = []"

definition signalled :: "Client \<Rightarrow> nat list" where
  "signalled c = concat (map signal_of (events c))"

text \<open>
  What every state of a life satisfies: the pending table holds each call once; its calls
  and the calls signalled have been allocated; and while the receive loop runs (the
  client is not shut down), no call of the pending table has been signalled.
\<close>

definition client_inv :: "Client \<Rightarrow> bool" where
  "client_inv c =
     (distinct (map snd (pending c))
      \<and> (\<forall>a \<in> set (map snd (pending c)). a < next_call c)
      \<and> (\<forall>a \<in> set (signalled c). a < next_call c)
      \<and> (\<not> shutdown c \<longrightarrow> (\<forall>a \<in> set (map snd (pending c)). a \<notin> set (signalled c))))"

text \<open>
  The channels have room for the calls \<open>as\<close>: for each of them, the buffer of its channel
  can take, beside what it holds, all the calls of \<open>as\<close> that are signalled on that
  channel. \<open>room\<close> says so of the pending calls.
\<close>

definition room_for :: "nat list \<Rightarrow> Client \<Rightarrow> bool" where
  "room_for as c =
     (\<forall>a \<in> set as.
        length (queue (chans c (Done (calls c a))))
          + length (filter (\<lambda>b. Done (calls c b) = Done (calls c a)) as)
        \<le> cap (chans c (Done (calls c a))))"

definition room :: "Client \<Rightarrow> bool" where
  "room c = room_for (map snd (pending c)) c"

text \<open>
  The state in which the loop of \<^verbatim>\<open>terminateCalls\<close> ends when none of its sends has to
  wait.
\<close>

fun fail_all :: "(64 word \<times> nat) list \<Rightarrow> error \<Rightarrow> Client \<Rightarrow> Client" where
  "fail_all [] err c = c"
| "fail_all ((s, a) # rest) err c = fail_all rest err (deliver a (set_Error a err c))"

section \<open>Types and values as package reflect shows them\<close>

text \<open>
  The registry sees the receiver through Go's package \<^verbatim>\<open>reflect\<close>. A type is a
  predeclared type (\<^verbatim>\<open>int\<close>, \<^verbatim>\<open>string\<close>, \<^verbatim>\<open>float32\<close>, \<^verbatim>\<open>error\<close>: a name, no
  package path), a defined type (package path, name, the kind of its underlying type and
  the methods declared on it), or an unnamed pointer, slice or map type. A method
  declaration gives whether the receiver is a pointer, the method's name, the types of
  its parameters and the types of its results.
\<close>

datatype Kind =
    BoolKind | IntKind | Uint64Kind | Float32Kind | StringKind
  | StructKind | PtrKind | SliceKind | MapKind | InterfaceKind

datatype rtype =
    Predeclared string Kind
  | Defined string string Kind "method_decl list"
  | PointerTo rtype
  | SliceOf rtype
  | MapOf rtype rtype
and method_decl = MethodDecl bool string "rtype list" "rtype list"

fun Name :: "rtype \<Rightarrow> string" where
  "Name (Predeclared n k) = n"
| "Name (Defined p n k ds) = n"
| "Name (PointerTo t) = []"
| "Name (SliceOf t) = []"
| "Name (MapOf t u) = []"

fun PkgPath :: "rtype \<Rightarrow> string" where
  "PkgPath (Predeclared n k) = []"
| "PkgPath (Defined p n k ds) = p"
| "PkgPath (PointerTo t) = []"
| "PkgPath (SliceOf t) = []"
| "PkgPath (MapOf t u) = []"

fun Kind_of :: "rtype \<Rightarrow> Kind" where
  "Kind_of (Predeclared n k) = k"
| "Kind_of (Defined p n k ds) = k"
| "Kind_of (PointerTo t) = PtrKind"
| "Kind_of (SliceOf t) = SliceKind"
| "Kind_of (MapOf t u) = MapKind"

text \<open>
  \<^verbatim>\<open>ast.IsExported\<close>: the name begins with an upper-case letter. Names are ASCII here.
\<close>

definition IsExported :: "string \<Rightarrow> bool" where
  "IsExported n = (case n of [] \<Rightarrow> False | ch # rest \<Rightarrow> ch \<in> set ''ABCDEFGHIJKLMNOPQRSTUVWXYZ'')"

text \<open>
  \<^verbatim>\<open>reflect.Method\<close>: the name and the function type, whose inputs start with the
  receiver. \<open>Methods t\<close> is the method set that \<^verbatim>\<open>t.NumMethod()\<close> and \<^verbatim>\<open>t.Method(i)\<close>
  enumerate: the exported methods; for a defined type those declared with a value
  receiver, for a pointer to a defined type those declared with either receiver.
  Package reflect sorts them by name; a type has no two methods of one name, so the
  order does not change the table that the loop builds, and the model keeps the order
  of declaration.
\<close>

datatype Method = Method (m_Name: string) (In: "rtype list") (Out: "rtype list")

fun decl_exported :: "method_decl \<Rightarrow> bool" where
  "decl_exported (MethodDecl ptr n ins outs) = IsExported n"

fun decl_value_receiver :: "method_decl \<Rightarrow> bool" where
  "decl_value_receiver (MethodDecl ptr n ins outs) = (\<not> ptr)"

fun as_Method :: "rtype \<Rightarrow> method_decl \<Rightarrow> Method" where
  "as_Method rt (MethodDecl ptr n ins outs) = Method n (rt # ins) outs"

fun Methods :: "rtype \<Rightarrow> Method list" where
  "Methods (Defined p n k ds) =
     map (as_Method (Defined p n k ds))
       (filter (\<lambda>d. decl_exported d \<and> decl_value_receiver d) ds)"
| "Methods (PointerTo (Defined p n k ds)) =
     map (as_Method (PointerTo (Defined p n k ds))) (filter decl_exported ds)"
| "Methods t = []"

text \<open>
  A \<^verbatim>\<open>reflect.Value\<close>: its type and what it holds, which is the zero value of a type
  that is no pointer, a nil pointer, or a pointer to a cell of the heap. The heap is the
  list of the cells that \<^verbatim>\<open>reflect.New\<close> has allocated, each with its type.
\<close>

datatype data = Zero | Nil | Ref nat

datatype Value = Value (v_Type: rtype) (v_data: data)

definition zero_data :: "rtype \<Rightarrow> data" where
  "zero_data t = (if Kind_of t \<in> {PtrKind, SliceKind, MapKind, InterfaceKind} then Nil else Zero)"

definition reflect_New :: "rtype \<Rightarrow> (rtype \<times> data) list \<Rightarrow> Value \<times> (rtype \<times> data) list" where
  "reflect_New t heap = (Value (PointerTo t) (Ref (length heap)), heap @ [(t, zero_data t)])"

text \<open>
  \<^verbatim>\<open>Value.Elem()\<close> of a pointer: the value it points to; \<open>None\<close> is the panic or the
  invalid value that Go gives for anything else.
\<close>

fun Value_Elem :: "Value \<Rightarrow> (rtype \<times> data) list \<Rightarrow> Value option" where
  "Value_Elem (Value (PointerTo t) (Ref a)) heap =
     (if a < length heap then Some (Value t (snd (heap ! a))) else None)"
| "Value_Elem v heap = None"

text \<open>
  The type of \<^verbatim>\<open>reflect.Indirect(v)\<close>: of the value pointed to when \<open>v\<close> is a pointer
  that is not nil, of \<open>v\<close> itself when it is no pointer. \<^verbatim>\<open>Type()\<close> panics on the
  invalid value that a nil pointer gives.
\<close>

fun Indirect_Type :: "Value \<Rightarrow> rtype option" where
  "Indirect_Type (Value (PointerTo t) (Ref a)) = Some t"
| "Indirect_Type (Value (PointerTo t) d) = None"
| "Indirect_Type (Value t d) = Some t"

section \<open>Method registry (service.go)\<close>

record methodType =
  mt_method :: Method
  ArgType :: rtype
  ReplyType :: rtype

record service =
  name :: string
  s_typ :: rtype
  rcvr :: Value
  s_method :: "string \<rightharpoonup> methodType"

text \<open>
  \<^verbatim>\<open>newArgv\<close>, with the heap that \<^verbatim>\<open>reflect.New\<close> allocates in. Both branches of the
  source are the same expression \<^verbatim>\<open>reflect.New(m.ArgType).Elem()\<close>.
\<close>

definition newArgv :: "methodType \<Rightarrow> (rtype \<times> data) list \<Rightarrow> Value option \<times> (rtype \<times> data) list" where
  "newArgv m heap =
     (if Kind_of (ArgType m) = PtrKind then
        (let (p, heap') = reflect_New (ArgType m) heap in (Value_Elem p heap', heap'))
      else
        (let (p, heap') = reflect_New (ArgType m) heap in (Value_Elem p heap', heap')))"

definition isExportedOrBuiltinType :: "rtype \<Rightarrow> bool" where
  "isExportedOrBuiltinType t = (IsExported (Name t) \<or> PkgPath t = [])"

definition errorType :: rtype where
  "errorType = Predeclared ''error'' InterfaceKind"

text \<open>The loop of \<^verbatim>\<open>registerMethods\<close> over the methods, and its body.\<close>

definition register_one :: "Method \<Rightarrow> (string \<rightharpoonup> methodType) \<Rightarrow> (string \<rightharpoonup> methodType)" where
  "register_one m tab =
     (if length (In m) \<noteq> 3 \<or> length (Out m) \<noteq> 1 then tab
      else if Out m ! 0 \<noteq> errorType then tab
      else (let argType = In m ! 1; replyType = In m ! 2
            in if \<not> isExportedOrBuiltinType argType \<or> \<not> isExportedOrBuiltinType replyType then tab
               else tab(m_Name m \<mapsto> \<lparr>mt_method = m, ArgType = argType, ReplyType = replyType\<rparr>)))"

fun register_loop :: "Method list \<Rightarrow> (string \<rightharpoonup> methodType) \<Rightarrow> (string \<rightharpoonup> methodType)" where
  "register_loop [] tab = tab"
| "register_loop (m # ms) tab = register_loop ms (register_one m tab)"

definition registerMethods :: "service \<Rightarrow> service" where
  "registerMethods s = s\<lparr>s_method := register_loop (Methods (s_typ s)) Map.empty\<rparr>"

datatype failure = Fatal string | ReflectPanic

text \<open>
  \<^verbatim>\<open>newService\<close>: \<^verbatim>\<open>log.Fatalf\<close> ends the process, which is the result \<open>Inl (Fatal msg)\<close>.
\<close>

definition newService :: "Value \<Rightarrow> failure + service" where
  "newService r =
     (case Indirect_Type r of
        None \<Rightarrow> Inl ReflectPanic
      | Some t \<Rightarrow>
          (let s = \<lparr>name = Name t, s_typ = v_Type r, rcvr = r, s_method = Map.empty\<rparr>
           in if \<not> IsExported (name s)
              then Inl (Fatal (''rpc server: '' @ name s @ '' is not a valie service name''))
              else Inr (registerMethods s)))"

section \<open>Server (server.go)\<close>

record Server =
  serviceMap :: "string \<rightharpoonup> service"

text \<open>\<^verbatim>\<open>Register\<close>: \<^verbatim>\<open>LoadOrStore\<close> keeps an entry that is there already.\<close>

definition Register_service :: "Value \<Rightarrow> Server \<Rightarrow> failure + (error option \<times> Server)" where
  "Register_service r server =
     (case newService r of
        Inl f \<Rightarrow> Inl f
      | Inr s \<Rightarrow>
          (case serviceMap server (name s) of
             Some old \<Rightarrow> Inr (Some (New (''rpc: service already defined: '' @ name s)), server)
           | None \<Rightarrow> Inr (None, server\<lparr>serviceMap := (serviceMap server)(name s \<mapsto> s)\<rparr>)))"

text \<open>
  \<^verbatim>\<open>strings.LastIndex(s, ".")\<close>: for a separator of one byte the library scans \<open>s\<close> from
  its end for that byte and returns \<open>-1\<close> when it is absent.
\<close>

fun last_index_from :: "string \<Rightarrow> char \<Rightarrow> nat \<Rightarrow> int" where
  "last_index_from s ch 0 = - 1"
| "last_index_from s ch (Suc i) = (if s ! i = ch then int i else last_index_from s ch i)"

definition LastIndex :: "string \<Rightarrow> char \<Rightarrow> int" where
  "LastIndex s ch = last_index_from s ch (length s)"

text \<open>\<^verbatim>\<open>findService\<close> with its three named results \<open>svc\<close>, \<open>mtype\<close> and \<open>err\<close>.\<close>

definition findService :: "Server \<Rightarrow> string \<Rightarrow> service option \<times> methodType option \<times> error option" where
  "findService server serviceMethod =
     (let dot = LastIndex serviceMethod (CHR ''.'')
      in if dot < 0 then
           (None, None, Some (New (''rpc server: service/method request ill-formed: '' @ serviceMethod)))
         else
           (let serviceName = take (nat dot) serviceMethod;
                methodName = drop (nat dot + 1) serviceMethod
            in case serviceMap server serviceName of
                 None \<Rightarrow> (None, None, Some (New (''rpc server:can't find service '' @ serviceName)))
               | Some svc \<Rightarrow>
                   (case s_method svc methodName of
                      None \<Rightarrow> (Some svc, None, Some (New (''rpc server: can't find method '' @ methodName)))
                    | Some mtype \<Rightarrow> (Some svc, Some mtype, None))))"

section \<open>The demonstration program (main.go)\<close>

text \<open>
  The types of \<^verbatim>\<open>main.go\<close>: \<^verbatim>\<open>Args\<close>, and \<^verbatim>\<open>Foo\<close> with its two methods
  \<^verbatim>\<open>Sum(args Args, reply *float32) error\<close> and
  \<^verbatim>\<open>Uppercase(str string, reply *string) error\<close>, both declared on the value receiver.
\<close>

definition float32 :: rtype where
  "float32 = Predeclared ''float32'' Float32Kind"

definition string_t :: rtype where
  "string_t = Predeclared ''string'' StringKind"

definition Args_t :: rtype where
  "Args_t = Defined ''main'' ''Args'' StructKind []"

definition Foo :: rtype where
  "Foo = Defined ''main'' ''Foo'' StructKind
     [MethodDecl False ''Sum'' [Args_t, PointerTo float32] [errorType],
      MethodDecl False ''Uppercase'' [string_t, PointerTo string_t] [errorType]]"

fun decl_name :: "method_decl \<Rightarrow> string" where
  "decl_name (MethodDecl ptr n ins outs) = n"

section \<open>Options\<close>

text \<open>
  Extra X1. \<^verbatim>\<open>parseOptions\<close> with one option that is not nil returns it with the magic
  number \<open>0x3bef5c\<close>, whatever the caller wrote there, and with \<^verbatim>\<open>application/gob\<close> in
  place of an empty codec type.
\<close>

lemma parseOptions_single:
  "parseOptions [Some x] =
     Inr \<lparr>MagicNumber = 0x3bef5c,
          CodecType = (if CodecType x = [] then ''application/gob'' else CodecType x)\<rparr>"
  by (simp add: parseOptions_def DefaultOption_def MagicNumber_const_def GobType_def)

lemma parseOptions_default:
  "parseOptions [] = Inr DefaultOption" "parseOptions [None] = Inr DefaultOption"
  by (simp_all add: parseOptions_def)

lemma parseOptions_two_options:
  "parseOptions [Some x, y] = Inl (New ''number of options is more than 1'')"
  by (simp add: parseOptions_def)

text \<open>
  Claim C7. One option that is not nil comes back with the magic number \<open>0x3bef5c\<close> and
  with \<^verbatim>\<open>application/gob\<close> for an empty codec type, and no option or one nil option gives
  \<open>DefaultOption\<close> (the three lemmas above). The claim also says that more than one option
  is an error. The code tests \<^verbatim>\<open>opts[0] == nil\<close> before it tests the length: called with
  a nil pointer followed by a second option it returns \<open>DefaultOption\<close> and no error.
\<close>

theorem parseOptions_nil_then_option:
  "parseOptions [None, Some \<lparr>MagicNumber = 1, CodecType = ''application/json''\<rparr>] = Inr DefaultOption"
  by (simp add: parseOptions_def)

section \<open>The codec's write\<close>

lemma Write_result:
  "fst (GobCodec_Write env h body c) =
     (case enc_header_err env of Some e \<Rightarrow> Some e | None \<Rightarrow> enc_body_err env)"
  by (simp add: GobCodec_Write_def Encode_def split: option.splits)

lemma Write_flushes:
  "flushes (snd (GobCodec_Write env h body c)) = Suc (flushes c)"
  by (simp add: GobCodec_Write_def Encode_def Write_deferred_def Flush_def GobCodec_Close_def Let_def
      split: option.splits)

lemma Write_closes:
  "closes (snd (GobCodec_Write env h body c)) =
     (if fst (GobCodec_Write env h body c) = None then closes c else Suc (closes c))"
  by (simp add: GobCodec_Write_def Encode_def Write_deferred_def Flush_def GobCodec_Close_def Let_def
      split: option.splits)

lemma Write_frame:
  "enc_header_err env = None \<Longrightarrow> enc_body_err env = None \<Longrightarrow> flush_err env = None \<Longrightarrow>
     buf (snd (GobCodec_Write env h body c)) = [] \<and>
     conn (snd (GobCodec_Write env h body c)) = conn c @ buf c @ [EncHeader h, EncBody body]"
  by (simp add: GobCodec_Write_def Encode_def Write_deferred_def Flush_def Let_def)

text \<open>
  Claim C6, as stated, says that the write fails exactly when an I/O or encode error
  occurs. The deferred function drops the result of \<^verbatim>\<open>Flush\<close>: when both values are
  encoded and the flush fails, nothing has reached the connection and the write returns nil.
\<close>

theorem Write_flush_error_counterexample:
  "flush_err \<lparr>enc_header_err = None, enc_body_err = None,
              flush_err = Some (Failure ''broken pipe''), close_err = None\<rparr> = Some (Failure ''broken pipe'')
   \<and> fst (GobCodec_Write \<lparr>enc_header_err = None, enc_body_err = None,
                         flush_err = Some (Failure ''broken pipe''), close_err = None\<rparr>
         \<lparr>h_ServiceMethod = ''Foo.Sum'', h_Seq = 1, h_Error = []\<rparr> ''args''
         \<lparr>buf = [], conn = [], flushes = 0, closes = 0\<rparr>) = None
   \<and> conn (snd (GobCodec_Write \<lparr>enc_header_err = None, enc_body_err = None,
                         flush_err = Some (Failure ''broken pipe''), close_err = None\<rparr>
         \<lparr>h_ServiceMethod = ''Foo.Sum'', h_Seq = 1, h_Error = []\<rparr> ''args''
         \<lparr>buf = [], conn = [], flushes = 0, closes = 0\<rparr>)) = []"
  by (simp add: GobCodec_Write_def Encode_def Write_deferred_def Flush_def)

text \<open>
  Claim C6, amended. Every call of the write flushes the buffered writer once before it
  returns. It fails exactly when encoding the header or encoding the body fails, and it
  returns that error; an error of the flush is dropped. It closes the codec exactly when
  it fails. When nothing fails, the flush included, the whole frame (header, then body)
  has reached the connection behind what was buffered before, and the buffer is empty.
\<close>

theorem GobCodec_Write_flushes_and_closes:
  "flushes (snd (GobCodec_Write env h body c)) = Suc (flushes c)
   \<and> fst (GobCodec_Write env h body c) =
       (case enc_header_err env of Some e \<Rightarrow> Some e | None \<Rightarrow> enc_body_err env)
   \<and> (fst (GobCodec_Write env h body c) = None \<longleftrightarrow>
        enc_header_err env = None \<and> enc_body_err env = None)
   \<and> closes (snd (GobCodec_Write env h body c)) =
       (if fst (GobCodec_Write env h body c) = None then closes c else Suc (closes c))
   \<and> (fst (GobCodec_Write env h body c) = None \<and> flush_err env = None \<longrightarrow>
        buf (snd (GobCodec_Write env h body c)) = [] \<and>
        conn (snd (GobCodec_Write env h body c)) = conn c @ buf c @ [EncHeader h, EncBody body])"
proof (intro conjI impI)
  show "flushes (snd (GobCodec_Write env h body c)) = Suc (flushes c)"
    by (rule Write_flushes)
  show "fst (GobCodec_Write env h body c) =
       (case enc_header_err env of Some e \<Rightarrow> Some e | None \<Rightarrow> enc_body_err env)"
    by (rule Write_result)
  show "(fst (GobCodec_Write env h body c) = None) =
        (enc_header_err env = None \<and> enc_body_err env = None)"
    by (simp add: Write_result split: option.splits)
  show "closes (snd (GobCodec_Write env h body c)) =
       (if fst (GobCodec_Write env h body c) = None then closes c else Suc (closes c))"
    by (rule Write_closes)
next
  assume a: "fst (GobCodec_Write env h body c) = None \<and> flush_err env = None"
  then have "enc_header_err env = None" "enc_body_err env = None" "flush_err env = None"
    by (simp_all add: Write_result split: option.splits)
  then have f: "buf (snd (GobCodec_Write env h body c)) = [] \<and>
     conn (snd (GobCodec_Write env h body c)) = conn c @ buf c @ [EncHeader h, EncBody body]"
    by (rule Write_frame)
  from f show "buf (snd (GobCodec_Write env h body c)) = []" by (rule conjunct1)
  from f show "conn (snd (GobCodec_Write env h body c)) = conn c @ buf c @ [EncHeader h, EncBody body]"
    by (rule conjunct2)
qed

theorem GobCodec_Write_flushes_and_closes_witness:
  "conn (snd (GobCodec_Write
       \<lparr>enc_header_err = None, enc_body_err = None, flush_err = None, close_err = None\<rparr>
       \<lparr>h_ServiceMethod = ''Foo.Sum'', h_Seq = 1, h_Error = []\<rparr> ''args''
       \<lparr>buf = [], conn = [], flushes = 0, closes = 0\<rparr>)) =
     [EncHeader \<lparr>h_ServiceMethod = ''Foo.Sum'', h_Seq = 1, h_Error = []\<rparr>, EncBody ''args'']
   \<and> closes (snd (GobCodec_Write
       \<lparr>enc_header_err = None, enc_body_err = Some (Failure ''gob: type not registered''),
        flush_err = None, close_err = None\<rparr>
       \<lparr>h_ServiceMethod = ''Foo.Sum'', h_Seq = 1, h_Error = []\<rparr> ''args''
       \<lparr>buf = [], conn = [], flushes = 0, closes = 0\<rparr>)) = 1"
  using GobCodec_Write_flushes_and_closes
          [of "\<lparr>enc_header_err = None, enc_body_err = None, flush_err = None, close_err = None\<rparr>"
              "\<lparr>h_ServiceMethod = ''Foo.Sum'', h_Seq = 1, h_Error = []\<rparr>" "''args''"
              "\<lparr>buf = [], conn = [], flushes = 0, closes = 0\<rparr>"]
        GobCodec_Write_flushes_and_closes
          [of "\<lparr>enc_header_err = None, enc_body_err = Some (Failure ''gob: type not registered''),
                flush_err = None, close_err = None\<rparr>"
              "\<lparr>h_ServiceMethod = ''Foo.Sum'', h_Seq = 1, h_Error = []\<rparr>" "''args''"
              "\<lparr>buf = [], conn = [], flushes = 0, closes = 0\<rparr>"]
  by simp

section \<open>Dispatch by name\<close>

lemma last_index_from_absent:
  "n \<le> length s \<Longrightarrow> ch \<notin> set (take n s) \<Longrightarrow> last_index_from s ch n = - 1"
proof (induction n)
  case 0
  then show ?case by simp
next
  case (Suc n)
  then have "n < length s" by simp
  then have "take (Suc n) s = take n s @ [s ! n]" by (simp add: take_Suc_conv_app_nth)
  with Suc show ?case by auto
qed

lemma LastIndex_absent: "ch \<notin> set s \<Longrightarrow> LastIndex s ch = - 1"
  by (simp add: LastIndex_def last_index_from_absent)

lemma last_index_from_last:
  "k \<le> length b \<Longrightarrow> ch \<notin> set (take k b) \<Longrightarrow>
     last_index_from (a @ ch # b) ch (Suc (length a + k)) = int (length a)"
proof (induction k)
  case 0
  then show ?case by simp
next
  case (Suc k)
  then have k: "k < length b" by simp
  then have "take (Suc k) b = take k b @ [b ! k]" by (simp add: take_Suc_conv_app_nth)
  with Suc have "b ! k \<noteq> ch" and "ch \<notin> set (take k b)" by auto
  moreover have "(a @ ch # b) ! (Suc (length a + k)) = b ! k"
    by (simp add: nth_append)
  ultimately show ?case using Suc k by simp
qed

lemma LastIndex_last: "ch \<notin> set b \<Longrightarrow> LastIndex (a @ ch # b) ch = int (length a)"
  using last_index_from_last [of "length b" b ch a] by (simp add: LastIndex_def)

text \<open>
  Claim C4. \<^verbatim>\<open>findService\<close> splits the name at its last dot. A name with no dot is
  rejected with the ill-formed error whatever the server holds, so the service map is
  not consulted. A name \<open>n.m\<close> whose part \<open>m\<close> has no dot resolves as service \<open>n\<close> and
  method \<open>m\<close>, also when \<open>n\<close> has dots of its own: \<^verbatim>\<open>A.B.C\<close> is service \<^verbatim>\<open>A.B\<close> and
  method \<^verbatim>\<open>C\<close>.
\<close>

theorem findService_splits_at_last_dot:
  "(CHR ''.'' \<notin> set s \<longrightarrow>
      (\<forall>server. findService server s =
         (None, None, Some (New (''rpc server: service/method request ill-formed: '' @ s)))))
   \<and> (CHR ''.'' \<notin> set m \<longrightarrow>
      findService server (n @ ''.'' @ m) =
        (case serviceMap server n of
           None \<Rightarrow> (None, None, Some (New (''rpc server:can't find service '' @ n)))
         | Some svc \<Rightarrow>
             (case s_method svc m of
                None \<Rightarrow> (Some svc, None, Some (New (''rpc server: can't find method '' @ m)))
              | Some mtype \<Rightarrow> (Some svc, Some mtype, None))))
   \<and> findService server ''A.B.C'' =
        (case serviceMap server ''A.B'' of
           None \<Rightarrow> (None, None, Some (New ''rpc server:can't find service A.B''))
         | Some svc \<Rightarrow>
             (case s_method svc ''C'' of
                None \<Rightarrow> (Some svc, None, Some (New ''rpc server: can't find method C''))
              | Some mtype \<Rightarrow> (Some svc, Some mtype, None)))"
proof (intro conjI impI allI)
  fix server assume "CHR ''.'' \<notin> set s"
  then show "findService server s =
         (None, None, Some (New (''rpc server: service/method request ill-formed: '' @ s)))"
    by (simp add: findService_def LastIndex_absent)
next
  assume "CHR ''.'' \<notin> set m"
  then have "LastIndex (n @ ''.'' @ m) (CHR ''.'') = int (length n)"
    using LastIndex_last [of "CHR ''.''" m n] by simp
  then show "findService server (n @ ''.'' @ m) =
        (case serviceMap server n of
           None \<Rightarrow> (None, None, Some (New (''rpc server:can't find service '' @ n)))
         | Some svc \<Rightarrow>
             (case s_method svc m of
                None \<Rightarrow> (Some svc, None, Some (New (''rpc server: can't find method '' @ m)))
              | Some mtype \<Rightarrow> (Some svc, Some mtype, None)))"
    by (simp add: findService_def Let_def split: option.splits)
next
  have "LastIndex (''A.B'' @ CHR ''.'' # ''C'') (CHR ''.'') = int (length ''A.B'')"
    by (rule LastIndex_last) simp
  then have "LastIndex ''A.B.C'' (CHR ''.'') = 3" by simp
  then show "findService server ''A.B.C'' =
        (case serviceMap server ''A.B'' of
           None \<Rightarrow> (None, None, Some (New ''rpc server:can't find service A.B''))
         | Some svc \<Rightarrow>
             (case s_method svc ''C'' of
                None \<Rightarrow> (Some svc, None, Some (New ''rpc server: can't find method C''))
              | Some mtype \<Rightarrow> (Some svc, Some mtype, None)))"
    by (simp add: findService_def Let_def split: option.splits)
qed

theorem findService_splits_at_last_dot_witness:
  "findService \<lparr>serviceMap = Map.empty\<rparr> ''NoDot'' =
     (None, None, Some (New ''rpc server: service/method request ill-formed: NoDot''))
   \<and> findService \<lparr>serviceMap = Map.empty\<rparr> ''A.B.C'' =
     (None, None, Some (New ''rpc server:can't find service A.B''))"
  using findService_splits_at_last_dot [of "''NoDot''" "''C''" "\<lparr>serviceMap = Map.empty\<rparr>" "''A.B''"]
  by simp

section \<open>The method registry\<close>

lemma IsExported_simps [simp]:
  "IsExported [] = False"
  "IsExported (ch # rest) = (ch \<in> set ''ABCDEFGHIJKLMNOPQRSTUVWXYZ'')"
  by (simp_all add: IsExported_def)

text \<open>
  Claim C1 says that a method whose reply parameter is no pointer is not registered,
  and that the reply of a registered method points to an exported or built-in type.
  \<^verbatim>\<open>registerMethods\<close> never looks at the kind of the reply type, and
  \<^verbatim>\<open>isExportedOrBuiltinType\<close> accepts every type with an empty package path, which
  every predeclared type and every pointer type has. For the receiver \<^verbatim>\<open>&Calc{}\<close> with
  \<^verbatim>\<open>func (c Calc) Double(n int, out int) error\<close> and
  \<^verbatim>\<open>func (c Calc) Leak(n int, out *secret) error\<close> both methods are in the table: the
  first with the reply type \<^verbatim>\<open>int\<close>, the second with a pointer to the unexported
  type \<^verbatim>\<open>secret\<close>.
\<close>

theorem registerMethods_accepts_value_reply:
  "(case newService (Value (PointerTo (Defined ''main'' ''Calc'' StructKind
        [MethodDecl False ''Double'' [Predeclared ''int'' IntKind, Predeclared ''int'' IntKind] [errorType],
         MethodDecl False ''Leak'' [Predeclared ''int'' IntKind,
                                    PointerTo (Defined ''main'' ''secret'' StructKind [])] [errorType]]))
        (Ref 0)) of
     Inl f \<Rightarrow> False
   | Inr s \<Rightarrow>
       (case s_method s ''Double'' of
          None \<Rightarrow> False
        | Some mt \<Rightarrow> ReplyType mt = Predeclared ''int'' IntKind \<and> Kind_of (ReplyType mt) = IntKind)
       \<and> (case s_method s ''Leak'' of
          None \<Rightarrow> False
        | Some mt \<Rightarrow> ReplyType mt = PointerTo (Defined ''main'' ''secret'' StructKind [])))"
  by (simp add: newService_def registerMethods_def register_one_def isExportedOrBuiltinType_def
      errorType_def Let_def)

text \<open>
  Extra X2. \<^verbatim>\<open>newArgv\<close> returns the zero value of the argument type itself, whatever
  its kind: the zero-initialized value of a value type, the nil pointer of a pointer type.
\<close>

lemma newArgv_zero:
  "fst (newArgv m heap) = Some (Value (ArgType m) (zero_data (ArgType m)))"
  by (simp add: newArgv_def reflect_New_def)

text \<open>
  Claim C2 says that \<^verbatim>\<open>newArgv\<close> returns a freshly allocated instance that is not nil
  when the argument type is a pointer. Both branches of \<^verbatim>\<open>newArgv\<close> are
  \<^verbatim>\<open>reflect.New(m.ArgType).Elem()\<close>, which is the zero value of the argument type
  (lemma \<open>newArgv_zero\<close>): for a method \<^verbatim>\<open>Sum(args *Args, reply *float32) error\<close> the
  value returned is the nil pointer of type \<^verbatim>\<open>*Args\<close>, and the cell allocated holds
  that nil pointer, not an \<^verbatim>\<open>Args\<close>.
\<close>

theorem newArgv_pointer_argument_is_nil:
  "newArgv \<lparr>mt_method = Method ''Sum'' [PointerTo Foo, PointerTo Args_t, PointerTo float32] [errorType],
            ArgType = PointerTo Args_t, ReplyType = PointerTo float32\<rparr> [] =
     (Some (Value (PointerTo Args_t) Nil), [(PointerTo Args_t, Nil)])"
  by (simp add: newArgv_def reflect_New_def zero_data_def)

section \<open>Services of pointer receivers\<close>

lemma register_loop_other:
  "k \<notin> m_Name ` set ms \<Longrightarrow> register_loop ms tab k = tab k"
  by (induction ms arbitrary: tab) (auto simp: register_one_def Let_def)

lemma register_loop_found:
  "distinct (map m_Name ms) \<Longrightarrow> m \<in> set ms \<Longrightarrow>
   length (In m) = 3 \<Longrightarrow> length (Out m) = 1 \<Longrightarrow> Out m ! 0 = errorType \<Longrightarrow>
   isExportedOrBuiltinType (In m ! 1) \<Longrightarrow> isExportedOrBuiltinType (In m ! 2) \<Longrightarrow>
   register_loop ms tab (m_Name m) = Some \<lparr>mt_method = m, ArgType = In m ! 1, ReplyType = In m ! 2\<rparr>"
proof (induction ms arbitrary: tab)
  case Nil
  then show ?case by simp
next
  case (Cons x ms)
  show ?case
  proof (cases "x = m")
    case True
    with Cons.prems have "m_Name m \<notin> m_Name ` set ms" by auto
    then have "register_loop ms (register_one m tab) (m_Name m) = register_one m tab (m_Name m)"
      by (rule register_loop_other)
    with True Cons.prems show ?thesis by (simp add: register_one_def)
  next
    case False
    with Cons.prems have "m \<in> set ms" "distinct (map m_Name ms)" by auto
    with Cons.IH Cons.prems show ?thesis by simp
  qed
qed

lemma m_Name_as_Method: "m_Name (as_Method rt d) = decl_name d"
  by (cases d) simp

lemma distinct_Methods_pointer:
  "distinct (map decl_name ds) \<Longrightarrow> distinct (map m_Name (Methods (PointerTo (Defined p n k ds))))"
  by (simp add: comp_def m_Name_as_Method distinct_map_filter)

text \<open>
  Claim C10. For a receiver that is a pointer to a value of a defined type \<open>T\<close> with an
  exported name \<open>n\<close> (as in \<^verbatim>\<open>Register(&foo)\<close>), the service is named \<open>n\<close>, the name of
  the type pointed to (the pointer type itself has the empty name), while \<open>s_typ\<close> is the
  pointer type and the table is built from the method set of the pointer type. A method
  declared on the value receiver with one argument, one reply and the result
  \<^verbatim>\<open>error\<close>, all eligible, is therefore in the table, and after \<^verbatim>\<open>Register\<close> the name
  \<open>n.Method\<close> finds it. Method names of one type are distinct, and a Go identifier has
  no dot.
\<close>

theorem newService_pointer_receiver:
  assumes "IsExported n" and "distinct (map decl_name ds)"
    and "MethodDecl False mn [arg, reply] [errorType] \<in> set ds"
    and "IsExported mn"
    and "isExportedOrBuiltinType arg" and "isExportedOrBuiltinType reply"
    and "CHR ''.'' \<notin> set mn" and "serviceMap server n = None"
  shows "\<exists>s server'. newService (Value (PointerTo (Defined p n k ds)) (Ref a)) = Inr s
           \<and> name s = n \<and> name s \<noteq> Name (PointerTo (Defined p n k ds))
           \<and> s_typ s = PointerTo (Defined p n k ds)
           \<and> s_method s = register_loop (Methods (PointerTo (Defined p n k ds))) Map.empty
           \<and> s_method s mn = Some \<lparr>mt_method = Method mn [PointerTo (Defined p n k ds), arg, reply] [errorType],
                                    ArgType = arg, ReplyType = reply\<rparr>
           \<and> Register_service (Value (PointerTo (Defined p n k ds)) (Ref a)) server = Inr (None, server')
           \<and> findService server' (n @ ''.'' @ mn) = (Some s, s_method s mn, None)"
proof -
  let ?T = "Defined p n k ds"
  let ?r = "Value (PointerTo ?T) (Ref a)"
  let ?m = "Method mn [PointerTo ?T, arg, reply] [errorType]"
  let ?s = "\<lparr>name = n, s_typ = PointerTo ?T, rcvr = ?r,
             s_method = register_loop (Methods (PointerTo ?T)) Map.empty\<rparr>"
  let ?server' = "server\<lparr>serviceMap := (serviceMap server)(n \<mapsto> ?s)\<rparr>"
  have new: "newService ?r = Inr ?s"
    using assms(1) by (simp add: newService_def registerMethods_def)
  have n_ne: "n \<noteq> []" using assms(1) by (auto simp: IsExported_def)
  have "as_Method (PointerTo ?T) (MethodDecl False mn [arg, reply] [errorType]) \<in>
          set (Methods (PointerTo ?T))"
    using assms(3,4) by (simp del: as_Method.simps) 
  then have mem: "?m \<in> set (Methods (PointerTo ?T))" by simp
  have found: "register_loop (Methods (PointerTo ?T)) Map.empty (m_Name ?m) =
      Some \<lparr>mt_method = ?m, ArgType = In ?m ! 1, ReplyType = In ?m ! 2\<rparr>"
    using distinct_Methods_pointer [OF assms(2)] mem assms(5,6)
    by (intro register_loop_found) simp_all
  have reg: "Register_service ?r server = Inr (None, ?server')"
    using new assms(8) by (simp add: Register_service_def)
  have "findService ?server' (n @ ''.'' @ mn) = (Some ?s, s_method ?s mn, None)"
    using assms(7) found LastIndex_last [of "CHR ''.''" mn n]
    by (simp add: findService_def)
  with new n_ne found reg show ?thesis by simp
qed


theorem newService_pointer_receiver_witness:
  "\<exists>s server'. newService (Value (PointerTo Foo) (Ref 0)) = Inr s
      \<and> name s = ''Foo'' \<and> s_typ s = PointerTo Foo
      \<and> s_method s ''Sum'' = Some \<lparr>mt_method = Method ''Sum'' [PointerTo Foo, Args_t, PointerTo float32] [errorType],
                                    ArgType = Args_t, ReplyType = PointerTo float32\<rparr>
      \<and> Register_service (Value (PointerTo Foo) (Ref 0)) \<lparr>serviceMap = Map.empty\<rparr> = Inr (None, server')
      \<and> findService server' ''Foo.Sum'' = (Some s, s_method s ''Sum'', None)"
proof -
  let ?ds = "[MethodDecl False ''Sum'' [Args_t, PointerTo float32] [errorType],
              MethodDecl False ''Uppercase'' [string_t, PointerTo string_t] [errorType]]"
  have "\<exists>s server'. newService (Value (PointerTo (Defined ''main'' ''Foo'' StructKind ?ds)) (Ref 0)) = Inr s
           \<and> name s = ''Foo'' \<and> name s \<noteq> Name (PointerTo (Defined ''main'' ''Foo'' StructKind ?ds))
           \<and> s_typ s = PointerTo (Defined ''main'' ''Foo'' StructKind ?ds)
           \<and> s_method s = register_loop (Methods (PointerTo (Defined ''main'' ''Foo'' StructKind ?ds))) Map.empty
           \<and> s_method s ''Sum'' = Some \<lparr>mt_method = Method ''Sum'' [PointerTo (Defined ''main'' ''Foo'' StructKind ?ds), Args_t, PointerTo float32] [errorType],
                                    ArgType = Args_t, ReplyType = PointerTo float32\<rparr>
           \<and> Register_service (Value (PointerTo (Defined ''main'' ''Foo'' StructKind ?ds)) (Ref 0)) \<lparr>serviceMap = Map.empty\<rparr> = Inr (None, server')
           \<and> findService server' (''Foo'' @ ''.'' @ ''Sum'') = (Some s, s_method s ''Sum'', None)"
    by (rule newService_pointer_receiver)
       (simp_all add: isExportedOrBuiltinType_def Args_t_def)
  then show ?thesis unfolding Foo_def by simp blast
qed

section \<open>The fields that the steps of the client change\<close>

lemma emit_fields [simp]:
  "closing (emit e c) = closing c" "shutdown (emit e c) = shutdown c" "cc (emit e c) = cc c"
  "pending (emit e c) = pending c" "seq (emit e c) = seq c" "calls (emit e c) = calls c"
  "chans (emit e c) = chans c" "next_call (emit e c) = next_call c" "next_chan (emit e c) = next_chan c"
  "events (emit e c) = events c @ [e]"
  by (simp_all add: emit_def)

lemma signalled_emit [simp]: "signalled (emit e c) = signalled c @ signal_of e"
  by (simp add: signalled_def)

lemma set_Error_fields [simp]:
  "closing (set_Error a err c) = closing c" "shutdown (set_Error a err c) = shutdown c"
  "cc (set_Error a err c) = cc c" "pending (set_Error a err c) = pending c"
  "seq (set_Error a err c) = seq c" "chans (set_Error a err c) = chans c"
  "next_call (set_Error a err c) = next_call c" "next_chan (set_Error a err c) = next_chan c"
  "events (set_Error a err c) = events c" "signalled (set_Error a err c) = signalled c"
  "Done (calls (set_Error a err c) b) = Done (calls c b)"
  "Error (calls (set_Error a err c) b) = (if b = a then Some err else Error (calls c b))"
  by (simp_all add: set_Error_def signalled_def)

lemma deliver_fields [simp]:
  "closing (deliver a c) = closing c" "shutdown (deliver a c) = shutdown c"
  "cc (deliver a c) = cc c" "pending (deliver a c) = pending c"
  "seq (deliver a c) = seq c" "calls (deliver a c) = calls c"
  "next_call (deliver a c) = next_call c" "next_chan (deliver a c) = next_chan c"
  "events (deliver a c) = events c @ [Signal a]" "signalled (deliver a c) = signalled c @ [a]"
  "cap (chans (deliver a c) ch) = cap (chans c ch)"
  "queue (chans (deliver a c) ch) = queue (chans c ch) @ (if Done (calls c a) = ch then [a] else [])"
  by (simp_all add: deliver_def signalled_def emit_def Let_def)

lemma done_call_cases:
  "done_call a c = Blocked c \<and> cap (chans c (Done (calls c a))) \<le> length (queue (chans c (Done (calls c a))))
   \<or> done_call a c = Returns (deliver a c)
       \<and> length (queue (chans c (Done (calls c a)))) < cap (chans c (Done (calls c a)))"
  by (simp add: done_call_def)

section \<open>The client when the connection fails\<close>

lemma fail_all_frame [simp]:
  "shutdown (fail_all ps err c) = shutdown c" "pending (fail_all ps err c) = pending c"
  "seq (fail_all ps err c) = seq c" "closing (fail_all ps err c) = closing c"
  "next_call (fail_all ps err c) = next_call c" "next_chan (fail_all ps err c) = next_chan c"
  "cc (fail_all ps err c) = cc c"
  by (induction ps err c rule: fail_all.induct) simp_all

lemma fail_all_Done [simp]: "Done (calls (fail_all ps err c) b) = Done (calls c b)"
  by (induction ps err c rule: fail_all.induct) simp_all

lemma fail_all_cap [simp]: "cap (chans (fail_all ps err c) ch) = cap (chans c ch)"
  by (induction ps err c rule: fail_all.induct) simp_all


lemma fail_all_signalled: "signalled (fail_all ps err c) = signalled c @ map snd ps"
  by (induction ps err c rule: fail_all.induct) simp_all

lemma fail_all_Error:
  "Error (calls (fail_all ps err c) b) = (if b \<in> snd ` set ps then Some err else Error (calls c b))"
proof (induction ps arbitrary: c)
  case Nil
  then show ?case by simp
next
  case (Cons p ps)
  obtain s a where p: "p = (s, a)" by (cases p)
  show ?case unfolding p by (auto simp add: Cons.IH)
qed


text \<open>
  With room in the channels, no send of the loop has to wait, and the loop returns.
\<close>

lemma room_for_step:
  assumes "room_for (a # as) c"
  shows "length (queue (chans c (Done (calls c a)))) < cap (chans c (Done (calls c a)))"
    and "room_for as (deliver a (set_Error a err c))"
proof -
  from assms have "length (queue (chans c (Done (calls c a))))
      + length (filter (\<lambda>b. Done (calls c b) = Done (calls c a)) (a # as))
      \<le> cap (chans c (Done (calls c a)))"
    by (simp add: room_for_def)
  then show "length (queue (chans c (Done (calls c a)))) < cap (chans c (Done (calls c a)))"
    by simp
  show "room_for as (deliver a (set_Error a err c))"
    unfolding room_for_def
  proof
    fix b assume b: "b \<in> set as"
    with assms have r: "length (queue (chans c (Done (calls c b))))
        + length (filter (\<lambda>x. Done (calls c x) = Done (calls c b)) (a # as))
        \<le> cap (chans c (Done (calls c b)))"
      by (simp add: room_for_def)
    then show "length (queue (chans (deliver a (set_Error a err c))
                 (Done (calls (deliver a (set_Error a err c)) b))))
        + length (filter (\<lambda>x. Done (calls (deliver a (set_Error a err c)) x)
                               = Done (calls (deliver a (set_Error a err c)) b)) as)
        \<le> cap (chans (deliver a (set_Error a err c)) (Done (calls (deliver a (set_Error a err c)) b)))"
      by (simp split: if_splits)
  qed
qed

lemma terminate_loop_room:
  "room_for (map snd ps) c \<Longrightarrow> terminate_loop ps err c = Returns (fail_all ps err c)"
proof (induction ps arbitrary: c)
  case Nil
  then show ?case by simp
next
  case (Cons p ps)
  obtain s a where p: "p = (s, a)" by (cases p)
  from Cons.prems p have r: "room_for (a # map snd ps) c" by simp
  from room_for_step(1) [OF r]
  have d: "done_call a (set_Error a err c) = Returns (deliver a (set_Error a err c))"
    by (simp add: done_call_def)
  from Cons.IH [OF room_for_step(2) [OF r]] d p show ?case by simp
qed

text \<open>
  Without room, the loop stays in the first send that finds its channel full.
\<close>

lemma terminate_loop_no_room:
  "\<not> room_for (map snd ps) c \<Longrightarrow> \<exists>c'. terminate_loop ps err c = Blocked c'"
proof (induction ps arbitrary: c)
  case Nil
  then show ?case by (simp add: room_for_def)
next
  case (Cons p ps)
  obtain s a where p: "p = (s, a)" by (cases p)
  show ?case
  proof (cases "length (queue (chans c (Done (calls c a)))) < cap (chans c (Done (calls c a)))")
    case False
    with p show ?thesis by (simp add: done_call_def)
  next
    case True
    then have d: "done_call a (set_Error a err c) = Returns (deliver a (set_Error a err c))"
      by (simp add: done_call_def)
    have "\<not> room_for (map snd ps) (deliver a (set_Error a err c))"
    proof
      assume r: "room_for (map snd ps) (deliver a (set_Error a err c))"
      have "room_for (map snd (p # ps)) c"
        unfolding room_for_def
      proof
        fix b assume b: "b \<in> set (map snd (p # ps))"
        show "length (queue (chans c (Done (calls c b))))
            + length (filter (\<lambda>x. Done (calls c x) = Done (calls c b)) (map snd (p # ps)))
            \<le> cap (chans c (Done (calls c b)))"
        proof (cases "b \<in> set (map snd ps)")
          case True
          with r have "length (queue (chans (deliver a (set_Error a err c))
                 (Done (calls (deliver a (set_Error a err c)) b))))
            + length (filter (\<lambda>x. Done (calls (deliver a (set_Error a err c)) x)
                               = Done (calls (deliver a (set_Error a err c)) b)) (map snd ps))
            \<le> cap (chans (deliver a (set_Error a err c)) (Done (calls (deliver a (set_Error a err c)) b)))"
            unfolding room_for_def by (rule bspec)
          then show ?thesis using p by (simp split: if_splits)
        next
          case False
          with b p have ba: "b = a" by simp
          show ?thesis
          proof (cases "\<exists>x \<in> set (map snd ps). Done (calls c x) = Done (calls c a)")
            case True
            then obtain x where x: "x \<in> set (map snd ps)" "Done (calls c x) = Done (calls c a)" by blast
            from r x(1) have "length (queue (chans (deliver a (set_Error a err c))
                 (Done (calls (deliver a (set_Error a err c)) x))))
              + length (filter (\<lambda>y. Done (calls (deliver a (set_Error a err c)) y)
                               = Done (calls (deliver a (set_Error a err c)) x)) (map snd ps))
              \<le> cap (chans (deliver a (set_Error a err c)) (Done (calls (deliver a (set_Error a err c)) x)))"
              unfolding room_for_def by (rule bspec)
            then show ?thesis using p x(2) ba by (simp split: if_splits)
          next
            case False
            then have "filter (\<lambda>x. Done (calls c x) = Done (calls c a)) (map snd ps) = []"
              by (simp add: filter_empty_conv)
            with True p ba show ?thesis by simp
          qed
        qed
      qed
      with Cons.prems show False by simp
    qed
    from Cons.IH [OF this] d p show ?thesis by simp
  qed
qed

lemma terminate_loop_frame:
  "shutdown (state_of (terminate_loop ps err c)) = shutdown c"
  "seq (state_of (terminate_loop ps err c)) = seq c"
  "pending (state_of (terminate_loop ps err c)) = pending c"
  "next_call (state_of (terminate_loop ps err c)) = next_call c"
  by (induction ps err c rule: terminate_loop.induct)
     (simp_all add: state_of_def done_call_def)

lemma terminateCalls_frame:
  "shutdown (state_of (terminateCalls e c))"
  "seq (state_of (terminateCalls e c)) = seq c"
  "pending (state_of (terminateCalls e c)) = pending c"
  "next_call (state_of (terminateCalls e c)) = next_call c"
proof -
  let ?c3 = "(emit (Lock mu) (emit (Lock sending) c))\<lparr>shutdown := True\<rparr>"
  have s: "state_of (terminateCalls e c) =
      (case terminate_loop (pending c) e ?c3 of
         Blocked c4 \<Rightarrow> c4 | Returns c4 \<Rightarrow> emit (Unlock sending) (emit (Unlock mu) c4))"
    by (simp add: terminateCalls_def state_of_def Let_def split: outcome.splits)
  from terminate_loop_frame [of "pending c" e ?c3]
  show "shutdown (state_of (terminateCalls e c))"
    "seq (state_of (terminateCalls e c)) = seq c"
    "pending (state_of (terminateCalls e c)) = pending c"
    "next_call (state_of (terminateCalls e c)) = next_call c"
    unfolding s by (simp_all add: state_of_def split: outcome.splits)
qed

lemma terminateCalls_room:
  "room c \<Longrightarrow> terminateCalls e c =
     Returns (emit (Unlock sending) (emit (Unlock mu)
       (fail_all (pending c) e ((emit (Lock mu) (emit (Lock sending) c))\<lparr>shutdown := True\<rparr>))))"
proof -
  assume "room c"
  then have "room_for (map snd (pending c)) ((emit (Lock mu) (emit (Lock sending) c))\<lparr>shutdown := True\<rparr>)"
    by (simp add: room_def room_for_def emit_def)
  from terminate_loop_room [OF this, of e] show ?thesis
    by (simp add: terminateCalls_def Let_def)
qed

lemma terminateCalls_no_room:
  "\<not> room c \<Longrightarrow> \<exists>c'. terminateCalls e c = Blocked c'"
proof -
  assume "\<not> room c"
  then have "\<not> room_for (map snd (pending c)) ((emit (Lock mu) (emit (Lock sending) c))\<lparr>shutdown := True\<rparr>)"
    by (simp add: room_def room_for_def emit_def)
  from terminate_loop_no_room [OF this, of e] show ?thesis
    by (auto simp add: terminateCalls_def Let_def)
qed

section \<open>What every state of a client satisfies\<close>

text \<open>
  \<open>client_inv\<close> holds for a new client and is kept by \<^verbatim>\<open>Go\<close>, by every round of the
  receive loop, by \<^verbatim>\<open>Close\<close>, by \<^verbatim>\<open>terminateCalls\<close> and by what the callers do with
  their channels. It is kept because \<^verbatim>\<open>removeCall\<close> takes a call out of the pending
  table before the call is signalled, and because \<^verbatim>\<open>send\<close> signals only the call it
  has failed to register or has removed again.
\<close>

lemma snd_set_update: "snd ` set (AList.update k v al) \<subseteq> insert v (snd ` set al)"
  by (induction al) auto

lemma distinct_snd_update:
  "distinct (map snd al) \<Longrightarrow> v \<notin> snd ` set al \<Longrightarrow> distinct (map snd (AList.update k v al))"
proof (induction al)
  case Nil
  then show ?case by simp
next
  case (Cons p al)
  obtain k' v' where p: "p = (k', v')" by (cases p)
  from Cons.prems p have d: "distinct (map snd al)" "v' \<notin> snd ` set al" "v \<notin> snd ` set al" "v \<noteq> v'"
    by auto
  show ?case
  proof (cases "k' = k")
    case True
    with p d show ?thesis by simp
  next
    case False
    from snd_set_update [of k v al] d have "v' \<notin> snd ` set (AList.update k v al)" by auto
    with False p Cons.IH [OF d(1) d(3)] show ?thesis by simp
  qed
qed

lemma distinct_snd_delete: "distinct (map snd al) \<Longrightarrow> distinct (map snd (AList.delete k al))"
  by (simp add: AList.delete_eq distinct_map_filter)

lemma set_delete_subset: "set (AList.delete k al) \<subseteq> set al"
  by (auto simp add: AList.delete_eq)

lemma removed_call_gone:
  assumes "distinct (map snd ps)" and "map_of ps s = Some a"
  shows "a \<notin> snd ` set (AList.delete s ps)"
proof
  assume "a \<in> snd ` set (AList.delete s ps)"
  then obtain s' where "(s', a) \<in> set (AList.delete s ps)" by force
  then have n: "s' \<noteq> s" "(s', a) \<in> set ps" by (auto simp add: AList.delete_eq)
  from assms(2) have m: "(s, a) \<in> set ps" by (rule map_of_SomeD)
  from assms(1) have "inj_on snd (set ps)" by (simp add: distinct_map)
  from inj_onD [OF this _ n(2) m] have "(s', a) = (s, a)" by simp
  with n(1) show False by simp
qed


lemma client_inv_new: "client_inv (newClientCodec codec option)"
  by (simp add: client_inv_def newClientCodec_def signalled_def)

lemma client_inv_same:
  assumes "client_inv c" and "pending c' = pending c" and "next_call c' = next_call c"
    and "signalled c' = signalled c" and "shutdown c' = shutdown c"
  shows "client_inv c'"
  using assms by (simp add: client_inv_def)

lemma client_inv_signal:
  assumes "client_inv c" and "a < next_call c" and "a \<notin> snd ` set (pending c)"
    and "pending c' = pending c" and "next_call c' = next_call c"
    and "signalled c' = signalled c @ [a]" and "shutdown c' = shutdown c"
  shows "client_inv c'"
  using assms by (auto simp add: client_inv_def)

lemma client_inv_register:
  assumes "client_inv c" and "a < next_call c" and "a \<notin> snd ` set (pending c)"
    and "a \<notin> set (signalled c)"
    and "pending c' = AList.update k a (pending c)" and "next_call c' = next_call c"
    and "signalled c' = signalled c" and "shutdown c' = shutdown c"
  shows "client_inv c'"
proof -
  have d: "distinct (map snd (AList.update k a (pending c)))"
    using assms(1,3) by (simp add: client_inv_def distinct_snd_update)
  have s: "snd ` set (AList.update k a (pending c)) \<subseteq> insert a (snd ` set (pending c))"
    by (rule snd_set_update)
  have b: "\<forall>x \<in> snd ` set (AList.update k a (pending c)). x < next_call c"
    using s assms(1,2) by (fastforce simp add: client_inv_def)
  have u: "\<not> shutdown c \<longrightarrow> (\<forall>x \<in> snd ` set (AList.update k a (pending c)). x \<notin> set (signalled c))"
    using s assms(1,4) by (fastforce simp add: client_inv_def)
  from d b u assms(1) show ?thesis
    by (simp add: client_inv_def assms(5-8))
qed

lemma client_inv_remove:
  assumes "client_inv c"
    and "pending c' = AList.delete k (pending c)" and "next_call c' = next_call c"
    and "signalled c' = signalled c
         \<or> (\<exists>a. signalled c' = signalled c @ [a] \<and> a < next_call c
                 \<and> a \<notin> snd ` set (AList.delete k (pending c)))"
    and "shutdown c' = shutdown c"
  shows "client_inv c'"
proof -
  have d: "distinct (map snd (AList.delete k (pending c)))"
    using assms(1) by (simp add: client_inv_def distinct_snd_delete)
  have s: "snd ` set (AList.delete k (pending c)) \<subseteq> snd ` set (pending c)"
    using set_delete_subset [of k "pending c"] by auto
  have b: "\<forall>x \<in> snd ` set (AList.delete k (pending c)). x < next_call c"
    using s assms(1) by (fastforce simp add: client_inv_def)
  have u: "\<not> shutdown c \<longrightarrow> (\<forall>x \<in> snd ` set (AList.delete k (pending c)). x \<notin> set (signalled c))"
    using s assms(1) by (fastforce simp add: client_inv_def)
  from assms(4) show ?thesis
  proof
    assume "signalled c' = signalled c"
    with d b u assms(1) show ?thesis by (simp add: client_inv_def assms(2,3,5))
  next
    assume "\<exists>a. signalled c' = signalled c @ [a] \<and> a < next_call c
                 \<and> a \<notin> snd ` set (AList.delete k (pending c))"
    then obtain a where a: "signalled c' = signalled c @ [a]" "a < next_call c"
      "a \<notin> snd ` set (AList.delete k (pending c))" by blast
    with d b u assms(1) show ?thesis by (auto simp add: client_inv_def assms(2,3,5))
  qed
qed

lemma send_view:
  "next_call (state_of (send env a c)) = next_call c
   \<and> shutdown (state_of (send env a c)) = shutdown c
   \<and> (pending (state_of (send env a c)) = pending c
        \<and> (signalled (state_of (send env a c)) = signalled c
           \<or> signalled (state_of (send env a c)) = signalled c @ [a])
      \<or> pending (state_of (send env a c)) = AList.update (seq c) a (pending c)
        \<and> signalled (state_of (send env a c)) = signalled c
      \<or> pending (state_of (send env a c)) = AList.delete (seq c) (pending c)
        \<and> (signalled (state_of (send env a c)) = signalled c
           \<or> signalled (state_of (send env a c)) = signalled c @ [a]))"
  by (simp add: send_def registerCall_def removeCall_def done_call_def state_of_def Let_def
      signalled_def AList.update_conv' AList.delete_update_same
      split: prod.splits sum.splits option.splits outcome.splits)

lemma client_inv_send:
  assumes i: "client_inv c" and a: "a < next_call c" "a \<notin> snd ` set (pending c)"
    "a \<notin> set (signalled c)"
  shows "client_inv (state_of (send env a c))"
proof -
  let ?c = "state_of (send env a c)"
  from send_view [of env a c]
  have n: "next_call ?c = next_call c" and h: "shutdown ?c = shutdown c"
    and v: "pending ?c = pending c \<and> (signalled ?c = signalled c \<or> signalled ?c = signalled c @ [a])
      \<or> pending ?c = AList.update (seq c) a (pending c) \<and> signalled ?c = signalled c
      \<or> pending ?c = AList.delete (seq c) (pending c)
        \<and> (signalled ?c = signalled c \<or> signalled ?c = signalled c @ [a])"
    by blast+
  have g: "a \<notin> snd ` set (AList.delete (seq c) (pending c))"
    using a(2) by (auto simp add: AList.delete_eq)
  from v consider
      (same) "pending ?c = pending c" "signalled ?c = signalled c"
    | (failed) "pending ?c = pending c" "signalled ?c = signalled c @ [a]"
    | (registered) "pending ?c = AList.update (seq c) a (pending c)" "signalled ?c = signalled c"
    | (removed) "pending ?c = AList.delete (seq c) (pending c)" "signalled ?c = signalled c"
    | (removed_failed) "pending ?c = AList.delete (seq c) (pending c)"
        "signalled ?c = signalled c @ [a]"
    by blast
  then show ?thesis
  proof cases
    case same
    show ?thesis by (rule client_inv_same [OF i same(1) n same(2) h])
  next
    case failed
    show ?thesis by (rule client_inv_signal [OF i a(1) a(2) failed(1) n failed(2) h])
  next
    case registered
    show ?thesis
      by (rule client_inv_register [OF i a(1) a(2) a(3) registered(1) n registered(2) h])
  next
    case removed
    from removed(2) have "signalled ?c = signalled c
         \<or> (\<exists>x. signalled ?c = signalled c @ [x] \<and> x < next_call c
                 \<and> x \<notin> snd ` set (AList.delete (seq c) (pending c)))"
      by (rule disjI1)
    then show ?thesis by (rule client_inv_remove [OF i removed(1) n _ h])
  next
    case removed_failed
    from removed_failed(2) a(1) g have "signalled ?c = signalled c
         \<or> (\<exists>x. signalled ?c = signalled c @ [x] \<and> x < next_call c
                 \<and> x \<notin> snd ` set (AList.delete (seq c) (pending c)))"
      by blast
    then show ?thesis by (rule client_inv_remove [OF i removed_failed(1) n _ h])
  qed
qed

lemma client_inv_Go:
  assumes i: "client_inv c" and go: "Go env sm args reply dn c = Inr (Returns (a, c'))"
  shows "client_inv c'"
proof -
  have s: "client_inv (state_of (send env (next_call c) c2))"
    if "pending c2 = pending c" "next_call c2 = Suc (next_call c)" "signalled c2 = signalled c"
      "shutdown c2 = shutdown c" for c2
  proof (rule client_inv_send)
    show "client_inv c2" using i that by (auto simp add: client_inv_def)
    show "next_call c < next_call c2" using that by simp
    show "next_call c \<notin> snd ` set (pending c2)" using i that by (auto simp add: client_inv_def)
    show "next_call c \<notin> set (signalled c2)" using i that by (auto simp add: client_inv_def)
  qed
  show ?thesis
  proof (cases dn)
    case None
    with go have "c' = state_of (send env (next_call c)
        (snd (new_Call sm args reply (next_chan c) (snd (make_chan 10 c)))))"
      by (auto simp add: Go_def send_new_def make_chan_def new_Call_def Let_def state_of_def
          split: outcome.splits)
    then show ?thesis using s by (simp add: make_chan_def new_Call_def Let_def signalled_def)
  next
    case (Some ch)
    with go have "c' = state_of (send env (next_call c) (snd (new_Call sm args reply ch c)))"
      by (auto simp add: Go_def send_new_def new_Call_def Let_def state_of_def
          split: if_splits outcome.splits)
    then show ?thesis using s by (simp add: new_Call_def Let_def signalled_def)
  qed
qed

lemma receive_frame_view:
  "receive_frame h b c = Returns (r, c') \<Longrightarrow>
     next_call c' = next_call c \<and> shutdown c' = shutdown c
     \<and> pending c' = AList.delete (h_Seq h) (pending c)
     \<and> (signalled c' = signalled c
        \<or> (\<exists>a. map_of (pending c) (h_Seq h) = Some a \<and> signalled c' = signalled c @ [a]))"
  by (auto simp add: receive_frame_def removeCall_def done_call_def Let_def signalled_def
      split: prod.splits sum.splits option.splits outcome.splits if_splits)

lemma client_inv_receive_frame:
  assumes i: "client_inv c" and r: "receive_frame h b c = Returns (r, c')"
  shows "client_inv c'"
proof -
  from receive_frame_view [OF r]
  have n: "next_call c' = next_call c" and s: "shutdown c' = shutdown c"
    and p: "pending c' = AList.delete (h_Seq h) (pending c)"
    and v: "signalled c' = signalled c
        \<or> (\<exists>a. map_of (pending c) (h_Seq h) = Some a \<and> signalled c' = signalled c @ [a])"
    by blast+
  have "signalled c' = signalled c
         \<or> (\<exists>a. signalled c' = signalled c @ [a] \<and> a < next_call c
                 \<and> a \<notin> snd ` set (AList.delete (h_Seq h) (pending c)))"
  proof (rule disjE [OF v])
    assume "signalled c' = signalled c"
    then show ?thesis by (rule disjI1)
  next
    assume "\<exists>a. map_of (pending c) (h_Seq h) = Some a \<and> signalled c' = signalled c @ [a]"
    then obtain a where m: "map_of (pending c) (h_Seq h) = Some a"
      and g: "signalled c' = signalled c @ [a]" by blast
    from i have d: "distinct (map snd (pending c))" by (simp add: client_inv_def)
    from map_of_SomeD [OF m] have "a \<in> snd ` set (pending c)" by force
    with i have "a < next_call c" by (auto simp add: client_inv_def)
    with g removed_call_gone [OF d m] show ?thesis by blast
  qed
  then show ?thesis by (rule client_inv_remove [OF i p n _ s])
qed

lemma terminateCalls_Returns:
  assumes "terminateCalls e c = Returns c'"
  shows "room c"
    and "c' = emit (Unlock sending) (emit (Unlock mu)
       (fail_all (pending c) e ((emit (Lock mu) (emit (Lock sending) c))\<lparr>shutdown := True\<rparr>)))"
proof -
  show r: "room c"
  proof (rule ccontr)
    assume "\<not> room c"
    from terminateCalls_no_room [OF this, of e] assms show False by auto
  qed
  from terminateCalls_room [OF r, of e] assms
  show "c' = emit (Unlock sending) (emit (Unlock mu)
       (fail_all (pending c) e ((emit (Lock mu) (emit (Lock sending) c))\<lparr>shutdown := True\<rparr>)))"
    by simp
qed

lemma terminateCalls_view:
  assumes "terminateCalls e c = Returns c'"
  shows "shutdown c'" and "pending c' = pending c" and "next_call c' = next_call c"
    and "signalled c' = signalled c @ map snd (pending c)"
  unfolding terminateCalls_Returns(2) [OF assms]
  by (simp_all add: fail_all_signalled) (simp_all add: signalled_def emit_def)

lemma client_inv_terminateCalls:
  assumes "client_inv c" and "terminateCalls e c = Returns c'"
  shows "client_inv c'"
  using assms(1) terminateCalls_view [OF assms(2)] by (auto simp add: client_inv_def)

lemma client_inv_Close: "client_inv c \<Longrightarrow> client_inv (snd (Client_Close env c))"
  by (rule client_inv_same [of c])
     (simp_all add: Client_Close_def GobCodec_Close_def Let_def signalled_def)

lemma client_inv_make_chan: "client_inv c \<Longrightarrow> client_inv (snd (make_chan n c))"
  by (rule client_inv_same [of c]) (simp_all add: make_chan_def Let_def signalled_def)

lemma client_inv_chan_take: "client_inv c \<Longrightarrow> client_inv (chan_take ch c)"
  by (rule client_inv_same [of c]) (simp_all add: chan_take_def signalled_def)

lemma life_inv: "life steps c = Some c' \<Longrightarrow> client_inv c \<Longrightarrow> client_inv c'"
proof (induction steps c rule: life.induct)
  case (1 c)
  then show ?case by simp
next
  case (2 env serviceMethod args reply dn steps c)
  from 2(2) obtain a c1 where g: "Go env serviceMethod args reply dn c = Inr (Returns (a, c1))"
    and l: "life steps c1 = Some c'"
    by (auto split: sum.splits outcome.splits)
  from client_inv_Go [OF 2(3) g] have "client_inv c1" .
  with 2(1) [OF g refl refl l] show ?case .
next
  case (3 e steps c)
  from 3(2) obtain c1 where h: "\<not> shutdown c" and t: "terminateCalls e c = Returns c1"
    and l: "life steps c1 = Some c'"
    by (auto split: if_splits outcome.splits)
  from client_inv_terminateCalls [OF 3(3) t] have "client_inv c1" .
  with 3(1) [OF h t l] show ?case .
next
  case (4 h b steps c)
  from 4(3) have s: "\<not> shutdown c" by (auto split: if_splits)
  from 4(3) s obtain r c1 where f: "receive_frame h b c = Returns (r, c1)"
    by (auto split: outcome.splits)
  from client_inv_receive_frame [OF 4(4) f] have i1: "client_inv c1" .
  show ?case
  proof (cases r)
    case None
    with 4(3) s f have l: "life steps c1 = Some c'" by simp
    from 4(1) [OF s f refl None l i1] show ?thesis .
  next
    case (Some e)
    with 4(3) s f obtain c2 where t: "terminateCalls e c1 = Returns c2"
      and l: "life steps c2 = Some c'"
      by (auto split: outcome.splits)
    from client_inv_terminateCalls [OF i1 t] have "client_inv c2" .
    with 4(2) [OF s f refl Some t l] show ?thesis .
  qed
next
  case (5 env steps c)
  from 5(2) have "life steps (snd (Client_Close env c)) = Some c'" by simp
  from 5(1) [OF this client_inv_Close [OF 5(3)]] show ?case .
next
  case (6 n steps c)
  from 6(2) have "life steps (snd (make_chan n c)) = Some c'" by simp
  from 6(1) [OF this client_inv_make_chan [OF 6(3)]] show ?case .
next
  case (7 ch steps c)
  from 7(2) have "life steps (chan_take ch c) = Some c'" by simp
  from 7(1) [OF this client_inv_chan_take [OF 7(3)]] show ?case .
qed

section \<open>The receive loop when a header cannot be read\<close>

lemma shared_channel_life:
  "n \<noteq> 0 \<Longrightarrow>
   \<exists>c. life [Make n,
             Submit \<lparr>enc_header_err = None, enc_body_err = None, flush_err = None, close_err = None\<rparr>
               ''Foo.Sum'' ''1'' [] (Some 0),
             Submit \<lparr>enc_header_err = None, enc_body_err = None, flush_err = None, close_err = None\<rparr>
               ''Foo.Sum'' ''2'' [] (Some 0)]
          (newClientCodec \<lparr>buf = [], conn = [], flushes = 0, closes = 0\<rparr> DefaultOption) = Some c
      \<and> pending c = [(1, 0), (2, 1)] \<and> \<not> shutdown c
      \<and> Done (calls c 0) = 0 \<and> Done (calls c 1) = 0
      \<and> cap (chans c 0) = n \<and> queue (chans c 0) = []
      \<and> events c = [Lock sending, Lock mu, Unlock mu, Unlock sending,
                     Lock sending, Lock mu, Unlock mu, Unlock sending]"
  by (simp add: Go_def make_chan_def new_Call_def send_new_def send_def registerCall_def emit_def
      newClientCodec_def GobCodec_Write_def Encode_def Write_deferred_def Flush_def Let_def)





section \<open>Whenever the receive loop leaves\<close>

lemma terminateCalls_exit:
  assumes "terminateCalls e c = Returns c'"
  shows "shutdown c' \<and> (\<forall>(s, a) \<in> set (pending c'). Error (calls c' a) \<noteq> None)"
proof (intro conjI ballI)
  show "shutdown c'" by (rule terminateCalls_view(1) [OF assms])
next
  fix p assume "p \<in> set (pending c')"
  then have "p \<in> set (pending c)" by (simp only: terminateCalls_view(2) [OF assms])
  then have "snd p \<in> snd ` set (pending c)" by (rule imageI)
  then have "Error (calls c' (snd p)) = Some e"
    unfolding terminateCalls_Returns(2) [OF assms] by (simp add: fail_all_Error)
  then show "case p of (s, a) \<Rightarrow> Error (calls c' a) \<noteq> None"
    by (simp add: case_prod_beta)
qed

text \<open>
  Extra X3. Whenever the receive loop leaves and \<^verbatim>\<open>terminateCalls\<close> returns, after a
  failed header or a failed body, whatever rounds came before, the client is shut down and
  every call left in the pending table carries an error.
\<close>

lemma receive_exit:
  "receive script c = Some (Returns c') \<Longrightarrow>
     shutdown c' \<and> (\<forall>(s, a) \<in> set (pending c'). Error (calls c' a) \<noteq> None)"
proof (induction script c rule: receive.induct)
  case (1 c)
  then show ?case by simp
next
  case (2 e rest c)
  then have "terminateCalls e c = Returns c'" by simp
  then show ?case by (rule terminateCalls_exit)
next
  case (3 h b rest c)
  show ?case
  proof (cases "receive_frame h b c")
    case (Blocked c1)
    with 3(2) show ?thesis by simp
  next
    case (Returns x)
    obtain r c1 where x: "x = (r, c1)" by (cases x)
    show ?thesis
    proof (cases r)
      case None
      with 3(2) Returns x have "receive rest c1 = Some (Returns c')" by simp
      from 3(1) [OF Returns x [symmetric] None this] show ?thesis .
    next
      case (Some e)
      with 3(2) Returns x have "terminateCalls e c1 = Returns c'" by simp
      then show ?thesis by (rule terminateCalls_exit)
    qed
  qed
qed

lemma Go_first_call:
  "\<exists>c. Go \<lparr>enc_header_err = None, enc_body_err = None, flush_err = None, close_err = None\<rparr>
          ''Foo.Sum'' ''args'' [] None
          (newClientCodec \<lparr>buf = [], conn = [], flushes = 0, closes = 0\<rparr> DefaultOption)
        = Inr (Returns (0, c))
      \<and> pending c = [(1, 0)] \<and> Done (calls c 0) = 0 \<and> queue (chans c 0) = [] \<and> cap (chans c 0) = 10
      \<and> events c = [Lock sending, Lock mu, Unlock mu, Unlock sending]"
  by (simp add: Go_def make_chan_def new_Call_def send_new_def send_def registerCall_def emit_def
      newClientCodec_def GobCodec_Write_def Encode_def Write_deferred_def Flush_def Let_def)

lemma receive_exit_example:
  "\<exists>c c'. Go \<lparr>enc_header_err = None, enc_body_err = None, flush_err = None, close_err = None\<rparr>
          ''Foo.Sum'' ''args'' [] None
          (newClientCodec \<lparr>buf = [], conn = [], flushes = 0, closes = 0\<rparr> DefaultOption)
        = Inr (Returns (0, c))
     \<and> receive [Frame \<lparr>h_ServiceMethod = ''Foo.Sum'', h_Seq = 7, h_Error = []\<rparr> (Inr ''15.36''),
                 HeaderFailure (Failure ''EOF'')] c = Some (Returns c')
     \<and> shutdown c' \<and> pending c' = [(1, 0)] \<and> Error (calls c' 0) \<noteq> None"
proof -
  obtain c where go: "Go \<lparr>enc_header_err = None, enc_body_err = None, flush_err = None, close_err = None\<rparr>
          ''Foo.Sum'' ''args'' [] None
          (newClientCodec \<lparr>buf = [], conn = [], flushes = 0, closes = 0\<rparr> DefaultOption)
        = Inr (Returns (0, c))"
    and c: "pending c = [(1, 0)]" "Done (calls c 0) = 0" "queue (chans c 0) = []"
      "cap (chans c 0) = 10"
    using Go_first_call by blast
  let ?c1 = "snd (removeCall 7 c)"
  have p1: "pending ?c1 = [(1, 0)]" by (simp add: removeCall_def c Let_def)
  have "room ?c1" using c by (simp add: room_def room_for_def p1) (simp add: removeCall_def Let_def)
  from terminateCalls_room [OF this, of "Failure ''EOF''"]
  obtain c' where t: "terminateCalls (Failure ''EOF'') ?c1 = Returns c'" by blast
  have r: "receive [Frame \<lparr>h_ServiceMethod = ''Foo.Sum'', h_Seq = 7, h_Error = []\<rparr> (Inr ''15.36''),
                    HeaderFailure (Failure ''EOF'')] c = Some (Returns c')"
    using t by (simp add: receive_frame_def removeCall_def body_err_def c Let_def)
  have p: "pending c' = [(1, 0)]" using terminateCalls_view(2) [OF t] p1 by simp
  from receive_exit [OF r] p have "shutdown c'" "Error (calls c' 0) \<noteq> None" by simp_all
  with go r p show ?thesis by blast
qed

text \<open>
  Extra X4. In every state that a new client reaches, the pending table holds each call
  once, and while the receive loop runs no call of the table has been signalled.
\<close>

lemma life_client_inv:
  "life steps (newClientCodec codec option) = Some c \<Longrightarrow> client_inv c"
  by (rule life_inv [OF _ client_inv_new])

lemma life_client_inv_example:
  "\<exists>c. life [Make 2,
             Submit \<lparr>enc_header_err = None, enc_body_err = None, flush_err = None, close_err = None\<rparr>
               ''Foo.Sum'' ''1'' [] (Some 0),
             Submit \<lparr>enc_header_err = None, enc_body_err = None, flush_err = None, close_err = None\<rparr>
               ''Foo.Sum'' ''2'' [] (Some 0)]
          (newClientCodec \<lparr>buf = [], conn = [], flushes = 0, closes = 0\<rparr> DefaultOption) = Some c
      \<and> pending c = [(1, 0), (2, 1)] \<and> client_inv c"
proof -
  have "(2 :: nat) \<noteq> 0" by simp
  from shared_channel_life [OF this]
  obtain c where l: "life [Make 2,
        Submit \<lparr>enc_header_err = None, enc_body_err = None, flush_err = None, close_err = None\<rparr>
          ''Foo.Sum'' ''1'' [] (Some 0),
        Submit \<lparr>enc_header_err = None, enc_body_err = None, flush_err = None, close_err = None\<rparr>
          ''Foo.Sum'' ''2'' [] (Some 0)]
      (newClientCodec \<lparr>buf = [], conn = [], flushes = 0, closes = 0\<rparr> DefaultOption) = Some c"
    and c: "pending c = [(1, 0), (2, 1)]"
    by blast
  from l c life_client_inv [OF l] show ?thesis by blast
qed

section \<open>The client after Close or shutdown\<close>








section \<open>Submitting a call\<close>

lemma send_chan:
  "Done (calls (state_of (send env a c)) b) = Done (calls c b)"
  "cap (chans (state_of (send env a c)) ch) = cap (chans c ch)"
  "next_chan (state_of (send env a c)) = next_chan c"
  by (simp_all add: send_def registerCall_def removeCall_def done_call_def state_of_def Let_def
      split: prod.splits sum.splits option.splits)

text \<open>
  \<^verbatim>\<open>send\<close> signals no call but its own, so it returns when the channel of its call has
  room.
\<close>

lemma send_Returns:
  "length (queue (chans c (Done (calls c a)))) < cap (chans c (Done (calls c a))) \<Longrightarrow>
     send env a c = Returns (state_of (send env a c))"
  by (simp add: send_def registerCall_def removeCall_def done_call_def state_of_def Let_def
      AList.update_conv' split: prod.splits sum.splits option.splits)

lemma send_new_Returns:
  assumes "length (queue (chans c (Done (calls c a)))) < cap (chans c (Done (calls c a)))"
  shows "send_new env a c = Returns (a, state_of (send env a c))"
  using send_Returns [OF assms, of env]
  by (cases "send env a c") (simp_all add: send_new_def state_of_def)

lemma Go_nil:
  "Go env sm args reply None c =
     Inr (send_new env (next_call c)
            (snd (new_Call sm args reply (next_chan c) (snd (make_chan 10 c)))))"
  by (simp add: Go_def make_chan_def new_Call_def Let_def)

lemma Go_buffered:
  "cap (chans c ch) \<noteq> 0 \<Longrightarrow>
     Go env sm args reply (Some ch) c =
       Inr (send_new env (next_call c) (snd (new_Call sm args reply ch c)))"
  by (simp add: Go_def new_Call_def Let_def)

lemma send_new_cases:
  "send_new env a c = Returns (a, state_of (send env a c))
   \<or> send_new env a c = Blocked (state_of (send env a c))"
  by (simp add: send_new_def state_of_def split: outcome.splits)

text \<open>
  Claim C8. \<^verbatim>\<open>Go\<close> with a nil channel allocates a new channel of capacity 10, and the
  new call has it as its \<open>Done\<close>; with a channel of capacity 0 it panics; with any other
  channel the call is made with that channel, and \<^verbatim>\<open>Go\<close> returns when that channel has
  room.
\<close>

theorem Go_done_channel:
  "(\<exists>c'. Go env sm args reply None c = Inr (Returns (next_call c, c'))
         \<and> Done (calls c' (next_call c)) = next_chan c
         \<and> cap (chans c' (next_chan c)) = 10
         \<and> next_chan c' = Suc (next_chan c))
   \<and> (cap (chans c ch) = 0 \<longrightarrow>
        Go env sm args reply (Some ch) c = Inl (Panic ''rpc client: done channel is unbuffered''))
   \<and> (cap (chans c ch) \<noteq> 0 \<longrightarrow>
        (\<exists>c'. (Go env sm args reply (Some ch) c = Inr (Returns (next_call c, c'))
                \<or> Go env sm args reply (Some ch) c = Inr (Blocked c'))
             \<and> Done (calls c' (next_call c)) = ch \<and> cap (chans c' ch) = cap (chans c ch)))
   \<and> (length (queue (chans c ch)) < cap (chans c ch) \<longrightarrow>
        (\<exists>c'. Go env sm args reply (Some ch) c = Inr (Returns (next_call c, c'))
             \<and> Done (calls c' (next_call c)) = ch \<and> cap (chans c' ch) = cap (chans c ch)))"
proof (intro conjI impI)
  let ?n = "snd (new_Call sm args reply (next_chan c) (snd (make_chan 10 c)))"
  have "length (queue (chans ?n (Done (calls ?n (next_call c)))))
      < cap (chans ?n (Done (calls ?n (next_call c))))"
    by (simp add: make_chan_def new_Call_def Let_def)
  from send_new_Returns [OF this, of env]
  have "Go env sm args reply None c = Inr (Returns (next_call c, state_of (send env (next_call c) ?n)))"
    by (simp only: Go_nil)
  moreover have "Done (calls (state_of (send env (next_call c) ?n)) (next_call c)) = next_chan c"
    "cap (chans (state_of (send env (next_call c) ?n)) (next_chan c)) = 10"
    "next_chan (state_of (send env (next_call c) ?n)) = Suc (next_chan c)"
    by (simp_all add: send_chan) (simp_all add: make_chan_def new_Call_def Let_def)
  ultimately show "\<exists>c'. Go env sm args reply None c = Inr (Returns (next_call c, c'))
         \<and> Done (calls c' (next_call c)) = next_chan c
         \<and> cap (chans c' (next_chan c)) = 10
         \<and> next_chan c' = Suc (next_chan c)"
    by blast
next
  assume "cap (chans c ch) = 0"
  then show "Go env sm args reply (Some ch) c = Inl (Panic ''rpc client: done channel is unbuffered'')"
    by (simp add: Go_def)
next
  let ?n = "snd (new_Call sm args reply ch c)"
  let ?s = "state_of (send env (next_call c) ?n)"
  assume "cap (chans c ch) \<noteq> 0"
  then have g: "Go env sm args reply (Some ch) c = Inr (send_new env (next_call c) ?n)"
    by (rule Go_buffered)
  have d: "Done (calls ?s (next_call c)) = ch" "cap (chans ?s ch) = cap (chans c ch)"
    by (simp_all add: send_chan) (simp_all add: new_Call_def Let_def)
  from send_new_cases [of env "next_call c" ?n]
  have "Go env sm args reply (Some ch) c = Inr (Returns (next_call c, ?s))
        \<or> Go env sm args reply (Some ch) c = Inr (Blocked ?s)"
    by (simp only: g sum.inject)
  with d show "\<exists>c'. (Go env sm args reply (Some ch) c = Inr (Returns (next_call c, c'))
                \<or> Go env sm args reply (Some ch) c = Inr (Blocked c'))
             \<and> Done (calls c' (next_call c)) = ch \<and> cap (chans c' ch) = cap (chans c ch)"
    by blast
next
  let ?n = "snd (new_Call sm args reply ch c)"
  let ?s = "state_of (send env (next_call c) ?n)"
  assume r: "length (queue (chans c ch)) < cap (chans c ch)"
  then have q: "length (queue (chans ?n (Done (calls ?n (next_call c)))))
      < cap (chans ?n (Done (calls ?n (next_call c))))"
    by (simp add: new_Call_def Let_def)
  from r have n: "cap (chans c ch) \<noteq> 0" by simp
  have "Go env sm args reply (Some ch) c = Inr (Returns (next_call c, ?s))"
    by (simp only: Go_buffered [OF n] send_new_Returns [OF q])
  moreover have "Done (calls ?s (next_call c)) = ch" "cap (chans ?s ch) = cap (chans c ch)"
    by (simp_all add: send_chan) (simp_all add: new_Call_def Let_def)
  ultimately show "\<exists>c'. Go env sm args reply (Some ch) c = Inr (Returns (next_call c, c'))
             \<and> Done (calls c' (next_call c)) = ch \<and> cap (chans c' ch) = cap (chans c ch)"
    by blast
qed

theorem Go_done_channel_witness:
  "(\<exists>c'. Go \<lparr>enc_header_err = None, enc_body_err = None, flush_err = None, close_err = None\<rparr>
           ''Foo.Sum'' ''args'' [] None
           (newClientCodec \<lparr>buf = [], conn = [], flushes = 0, closes = 0\<rparr> DefaultOption)
         = Inr (Returns (0, c'))
         \<and> Done (calls c' 0) = 0 \<and> cap (chans c' 0) = 10)
   \<and> Go \<lparr>enc_header_err = None, enc_body_err = None, flush_err = None, close_err = None\<rparr>
        ''Foo.Sum'' ''args'' [] (Some 0)
        (snd (make_chan 0 (newClientCodec \<lparr>buf = [], conn = [], flushes = 0, closes = 0\<rparr> DefaultOption)))
      = Inl (Panic ''rpc client: done channel is unbuffered'')
   \<and> (\<exists>c'. Go \<lparr>enc_header_err = None, enc_body_err = None, flush_err = None, close_err = None\<rparr>
        ''Foo.Sum'' ''args'' [] (Some 0)
        (snd (make_chan 1 (newClientCodec \<lparr>buf = [], conn = [], flushes = 0, closes = 0\<rparr> DefaultOption)))
      = Inr (Returns (0, c')) \<and> Done (calls c' 0) = 0)"
  using Go_done_channel
      [of "\<lparr>enc_header_err = None, enc_body_err = None, flush_err = None, close_err = None\<rparr>"
          "''Foo.Sum''" "''args''" "[]"
          "newClientCodec \<lparr>buf = [], conn = [], flushes = 0, closes = 0\<rparr> DefaultOption" 0]
    Go_done_channel
      [of "\<lparr>enc_header_err = None, enc_body_err = None, flush_err = None, close_err = None\<rparr>"
          "''Foo.Sum''" "''args''" "[]"
          "snd (make_chan 0 (newClientCodec \<lparr>buf = [], conn = [], flushes = 0, closes = 0\<rparr> DefaultOption))" 0]
    Go_done_channel
      [of "\<lparr>enc_header_err = None, enc_body_err = None, flush_err = None, close_err = None\<rparr>"
          "''Foo.Sum''" "''args''" "[]"
          "snd (make_chan 1 (newClientCodec \<lparr>buf = [], conn = [], flushes = 0, closes = 0\<rparr> DefaultOption))" 0]
  by (simp add: newClientCodec_def make_chan_def) blast

section \<open>Sequence numbers\<close>

lemma registerCall_open:
  "\<not> closing c \<Longrightarrow> \<not> shutdown c \<Longrightarrow>
     fst (registerCall a c) = Inr (seq c) \<and> seq (snd (registerCall a c)) = seq c + 1
     \<and> \<not> closing (snd (registerCall a c)) \<and> \<not> shutdown (snd (registerCall a c))"
  by (simp add: registerCall_def emit_def Let_def)

lemma registerCall_seq:
  "registerCall a c = (r, c') \<Longrightarrow>
     (case r of Inl err \<Rightarrow> seq c' = seq c | Inr s \<Rightarrow> s = seq c \<and> seq c' = seq c + 1)"
  by (auto simp add: registerCall_def emit_def Let_def split: if_splits)

lemma removeCall_seq: "seq (snd (removeCall s c)) = seq c"
  by (simp add: removeCall_def emit_def Let_def)

lemma Client_Close_seq: "seq (snd (Client_Close env c)) = seq c"
  by (simp add: Client_Close_def emit_def GobCodec_Close_def Let_def)

lemma run_seqs:
  "run ops c = (ss, c') \<Longrightarrow>
     ss = map (\<lambda>i. seq c + of_nat i) [0..<length ss] \<and> seq c' = seq c + of_nat (length ss)"
proof (induction ops c arbitrary: ss c' rule: run.induct)
  case (1 c)
  then show ?case by simp
next
  case (2 a ops c)
  obtain r c1 where rc: "registerCall a c = (r, c1)" by (cases "registerCall a c")
  show ?case
  proof (cases r)
    case (Inl err)
    with rc registerCall_seq [OF rc] have s: "seq c1 = seq c" by simp
    from 2(3) rc Inl have "run ops c1 = (ss, c')" by simp
    from 2(1) [OF rc [symmetric] Inl this] s show ?thesis by simp
  next
    case (Inr s)
    with rc registerCall_seq [OF rc] have s: "s = seq c" "seq c1 = seq c + 1" by simp_all
    obtain ss1 c2 where r1: "run ops c1 = (ss1, c2)" by (cases "run ops c1")
    from 2(3) rc Inr r1 have ss: "ss = s # ss1" "c' = c2" by simp_all
    from 2(2) [OF rc [symmetric] Inr r1] s
    have ih: "ss1 = map (\<lambda>i. seq c + 1 + of_nat i) [0..<length ss1]"
      "seq c2 = seq c + 1 + of_nat (length ss1)" by simp_all
    have "map (\<lambda>i. seq c + of_nat i) [0..<Suc (length ss1)] =
          seq c # map (\<lambda>i. seq c + 1 + of_nat i) [0..<length ss1]"
      by (simp add: upt_conv_Cons map_Suc_upt [symmetric] add.assoc del: upt_Suc)
    with ih ss s show ?thesis by (simp add: add.assoc del: upt_Suc)
  qed
next
  case (3 s ops c)
  then show ?case by (simp add: removeCall_seq)
next
  case (4 env ops c)
  then show ?case by (simp add: Client_Close_seq)
next
  case (5 err ops c)
  show ?case
  proof (cases "terminateCalls err c")
    case (Blocked c1)
    with 5(2) have r: "ss = []" "c' = c1" by simp_all
    from terminateCalls_frame(2) [of err c] Blocked have "seq c1 = seq c"
      by (simp add: state_of_def)
    with r show ?thesis by simp
  next
    case (Returns c1)
    from terminateCalls_frame(2) [of err c] Returns have s: "seq c1 = seq c"
      by (simp add: state_of_def)
    from 5(2) Returns have "run ops c1 = (ss, c')" by simp
    from 5(1) [OF Returns this] s show ?thesis by simp
  qed
qed

lemma unat_one_plus:
  "i < 2 ^ 64 - 1 \<Longrightarrow> unat (1 + of_nat i :: 64 word) = Suc i"
proof -
  assume "i < 2 ^ 64 - 1"
  then have "Suc i < 2 ^ 64" by simp
  then have "unat (of_nat (Suc i) :: 64 word) = Suc i"
    by (simp add: unat_of_nat del: of_nat_Suc)
  then show ?thesis by (simp add: add.commute)
qed


lemma run_registers_length:
  "\<not> closing c \<Longrightarrow> \<not> shutdown c \<Longrightarrow> length (fst (run (map Register as) c)) = length as"
proof (induction as arbitrary: c)
  case Nil
  then show ?case by simp
next
  case (Cons a as)
  obtain r c1 where rc: "registerCall a c = (r, c1)" by (cases "registerCall a c")
  with registerCall_open [OF Cons.prems, of a]
  have r: "r = Inr (seq c)" and o: "\<not> closing c1" "\<not> shutdown c1" by simp_all
  from Cons.IH [OF o] rc r show ?case by (simp add: split_beta)
qed

lemma run_registrations:
  "\<not> closing c \<Longrightarrow> \<not> shutdown c \<Longrightarrow>
     fst (run (registrations n) c) = map (\<lambda>i. seq c + of_nat i) [0..<n]"
proof -
  assume o: "\<not> closing c" "\<not> shutdown c"
  obtain ss c' where r: "run (registrations n) c = (ss, c')" by (cases "run (registrations n) c")
  from run_registers_length [OF o, of "[0..<n]"] r have "length ss = n"
    by (simp add: registrations_def)
  with run_seqs [OF r] r show ?thesis by simp
qed

text \<open>
  Claim C9, as stated, says that the sequence numbers of a client are unique and
  strictly increasing over its whole life and that 0 is never assigned. The counter is
  a \<^verbatim>\<open>uint64\<close> and \<^verbatim>\<open>client.seq++\<close> wraps around: in the life of a new client that
  registers \<open>2 ^ 64 + 1\<close> calls, the first call gets 1, the call number \<open>2 ^ 64\<close> gets 0,
  and the next one gets 1 again.
\<close>

theorem seq_wraps_counterexample:
  "fst (run (registrations (2 ^ 64 + 1))
        (newClientCodec \<lparr>buf = [], conn = [], flushes = 0, closes = 0\<rparr> DefaultOption)) ! 0 = 1
   \<and> fst (run (registrations (2 ^ 64 + 1))
        (newClientCodec \<lparr>buf = [], conn = [], flushes = 0, closes = 0\<rparr> DefaultOption)) ! (2 ^ 64 - 1) = 0
   \<and> fst (run (registrations (2 ^ 64 + 1))
        (newClientCodec \<lparr>buf = [], conn = [], flushes = 0, closes = 0\<rparr> DefaultOption)) ! (2 ^ 64) = 1"
proof -
  let ?c = "newClientCodec \<lparr>buf = [], conn = [], flushes = 0, closes = 0\<rparr> DefaultOption"
  let ?n = "2 ^ 64 + 1 :: nat"
  have o: "\<not> closing ?c" "\<not> shutdown ?c" and s: "seq ?c = 1"
    by (simp_all add: newClientCodec_def)
  have r: "fst (run (registrations ?n) ?c) = map (\<lambda>i. 1 + of_nat i) [0..<?n]"
    using run_registrations [OF o, of ?n] s by simp
  have n: "\<And>i. i < ?n \<Longrightarrow> map (\<lambda>i. 1 + of_nat i :: 64 word) [0..<?n] ! i = 1 + of_nat i"
    by (simp only: nth_map_upt minus_nat.diff_0 add_0)
  have a: "fst (run (registrations ?n) ?c) ! 0 = 1"
    unfolding r by (subst n) simp_all
  have b: "fst (run (registrations ?n) ?c) ! (2 ^ 64 - 1) = 0"
    unfolding r by (subst n) simp_all
  have c: "fst (run (registrations ?n) ?c) ! (2 ^ 64) = 1"
    unfolding r by (subst n) simp_all
  from a b c show ?thesis by (intro conjI)
qed

text \<open>
  Claim C9, amended. In any life of a new client (registrations, removals, \<^verbatim>\<open>Close\<close> and
  \<^verbatim>\<open>terminateCalls\<close> in any order) with fewer than \<open>2 ^ 64\<close> successful registrations,
  the sequence numbers assigned are \<open>1, 2, 3, \<dots>\<close> in the order of registration: they
  are unique, strictly increasing, start at 1, and 0 is not among them.
\<close>

theorem seq_unique_increasing_before_wrap:
  assumes "length (fst (run ops (newClientCodec codec option))) < 2 ^ 64"
  shows "map unat (fst (run ops (newClientCodec codec option))) =
           [1..<Suc (length (fst (run ops (newClientCodec codec option))))]
         \<and> distinct (fst (run ops (newClientCodec codec option)))
         \<and> sorted_wrt (<) (fst (run ops (newClientCodec codec option)))
         \<and> 0 \<notin> set (fst (run ops (newClientCodec codec option)))"
proof -
  let ?c = "newClientCodec codec option"
  obtain ss c' where r: "run ops ?c = (ss, c')" by (cases "run ops ?c")
  have s: "seq ?c = 1" by (simp add: newClientCodec_def)
  from assms r have len: "length ss < 2 ^ 64" by simp
  from run_seqs [OF r] s have ss: "ss = map (\<lambda>i. 1 + of_nat i) [0..<length ss]" by simp
  have "map unat ss = map unat (map (\<lambda>i. 1 + of_nat i :: 64 word) [0..<length ss])"
    using ss by simp
  also have "\<dots> = map Suc [0..<length ss]"
    using len by (simp add: unat_one_plus)
  also have "\<dots> = [1..<Suc (length ss)]"
    by (simp only: map_Suc_upt One_nat_def)
  finally have m: "map unat ss = [1..<Suc (length ss)]" .
  have "distinct (map unat ss)" unfolding m by simp
  then have d: "distinct ss" by (simp add: distinct_map)
  have "sorted_wrt (<) (map unat ss)" unfolding m by (rule sorted_wrt_upt)
  then have so: "sorted_wrt (<) ss" by (simp add: sorted_wrt_map flip: word_less_nat_alt)
  have z: "0 \<notin> set ss"
  proof
    assume "0 \<in> set ss"
    then have "unat (0 :: 64 word) \<in> unat ` set ss" by (rule imageI)
    then have "unat (0 :: 64 word) \<in> set (map unat ss)" by (simp only: set_map)
    then have "unat (0 :: 64 word) \<in> set [1..<Suc (length ss)]" by (simp only: m)
    then show False by (simp only: set_upt atLeastLessThan_iff unat_0) simp
  qed
  from m d so z r show ?thesis by simp
qed

theorem seq_unique_increasing_before_wrap_witness:
  "map unat (fst (run [Register 0, Register 1, Remove 1, Register 2]
       (newClientCodec \<lparr>buf = [], conn = [], flushes = 0, closes = 0\<rparr> DefaultOption))) = [1, 2, 3]
   \<and> fst (run [Register 0, Register 1, Remove 1, Register 2]
       (newClientCodec \<lparr>buf = [], conn = [], flushes = 0, closes = 0\<rparr> DefaultOption)) = [1, 2, 3]"
proof -
  let ?c = "newClientCodec \<lparr>buf = [], conn = [], flushes = 0, closes = 0\<rparr> DefaultOption"
  have r: "fst (run [Register 0, Register 1, Remove 1, Register 2] ?c) = [1, 2, 3]"
    by (simp add: registerCall_def removeCall_def emit_def newClientCodec_def Let_def)
  then have "length (fst (run [Register 0, Register 1, Remove 1, Register 2] ?c)) < 2 ^ 64" by simp
  from seq_unique_increasing_before_wrap [OF this] r show ?thesis by simp
qed

end
